theory Spec2Isabelle
  imports Main "HOL-Library.Multiset" "HOL-Library.Sublist"
begin

section \<open>Errors and results\<close>

text \<open>
  The exceptions the engine can raise become values. \<open>AttributeError\<close> is the read of an
  attribute that was never assigned (\<open>self.identity\<close> when no identity was found,
  \<open>self.x\<close> in the action validator), \<open>KeyError\<close> a dictionary lookup of a missing key.
  The group operation is a function on the element type; the not-found sentinel
  \<open>None\<close> of the inverse search is not a value of that type, and a call of the operation
  on it is the error \<open>OperandError\<close> (a table lookup raises \<open>KeyError\<close> there, arithmetic
  a \<open>TypeError\<close>). An operation may raise on its own: it returns \<open>error + 'a\<close>.
\<close>

datatype error = AttributeError | KeyError | OperandError

fun bindE :: "error + 'a \<Rightarrow> ('a \<Rightarrow> error + 'b) \<Rightarrow> error + 'b" where
  "bindE (Inl e) k = Inl e"
| "bindE (Inr x) k = k x"

text \<open>A loop or comprehension that collects one result per item and stops at the first raise.\<close>

fun mapE :: "('a \<Rightarrow> error + 'b) \<Rightarrow> 'a list \<Rightarrow> error + 'b list" where
  "mapE f [] = Inr []"
| "mapE f (x # xs) = bindE (f x) (\<lambda>y. bindE (mapE f xs) (\<lambda>ys. Inr (y # ys)))"

section \<open>The subset enumerator (functions.py)\<close>

text \<open>
  \<open>itertools.combinations(A, k)\<close>: the \<open>k\<close>-element subsequences of \<open>A\<close>, those that
  take the first item before those that skip it.
\<close>

fun combinations :: "'a list \<Rightarrow> nat \<Rightarrow> 'a list list" where
  "combinations xs 0 = [[]]"
| "combinations [] (Suc k) = []"
| "combinations (x # xs) (Suc k) = map ((#) x) (combinations xs k) @ combinations xs (Suc k)"

text \<open>The generator \<open>powerset\<close>, as the list of the tuples it yields, in order.\<close>

definition powerset :: "'a list \<Rightarrow> 'a list list" where
  "powerset A = [] # concat (map (combinations A) [1 ..< length A]) @ [A]"

section \<open>The Group class (groups.py)\<close>

text \<open>
  \<open>identity\<close> is \<open>None\<close> while the attribute is unassigned. \<open>inverses\<close> is the dictionary
  of cached inverses: a key is missing where the map is \<open>None\<close>, and the value stored under
  a key is \<open>None\<close> where the inverse search returned its sentinel.
\<close>

record 'a group =
  elements :: "'a list"
  fn :: "'a \<Rightarrow> 'a \<Rightarrow> error + 'a"
  identity :: "'a option"
  inverses :: "'a \<rightharpoonup> 'a option"

definition operation :: "'a group \<Rightarrow> 'a \<Rightarrow> 'a \<Rightarrow> error + 'a" where
  "operation g a b = fn g a b"

fun is_identity_loop :: "'a group \<Rightarrow> 'a \<Rightarrow> 'a list \<Rightarrow> error + bool" where
  "is_identity_loop g a [] = Inr True"
| "is_identity_loop g a (b # bs) =
     bindE (fn g a b) (\<lambda>ab.
       if ab \<noteq> b then Inr False
       else bindE (fn g b a) (\<lambda>ba.
         if ba \<noteq> b then Inr False else is_identity_loop g a bs))"

definition is_identity :: "'a group \<Rightarrow> 'a \<Rightarrow> error + bool" where
  "is_identity g a = is_identity_loop g a (elements g)"

text \<open>\<open>cache_identity\<close>: the attribute after the loop, unassigned when no element passed.\<close>

fun cache_identity_loop :: "'a group \<Rightarrow> 'a list \<Rightarrow> error + 'a option" where
  "cache_identity_loop g [] = Inr None"
| "cache_identity_loop g (a # as) =
     bindE (is_identity g a) (\<lambda>r. if r then Inr (Some a) else cache_identity_loop g as)"

definition cache_identity :: "'a group \<Rightarrow> error + 'a group" where
  "cache_identity g =
     bindE (cache_identity_loop g (elements g)) (\<lambda>r.
       Inr (case r of None \<Rightarrow> g | Some a \<Rightarrow> g\<lparr>identity := Some a\<rparr>))"

text \<open>
  \<open>inverse\<close>: each iteration applies the operation and then reads \<open>self.identity\<close>, so an
  unassigned identity raises in the first iteration; over no elements nothing is read.
\<close>

fun inverse_loop :: "'a group \<Rightarrow> 'a \<Rightarrow> 'a list \<Rightarrow> error + 'a option" where
  "inverse_loop g a [] = Inr None"
| "inverse_loop g a (b # bs) =
     bindE (operation g a b) (\<lambda>ab.
       case identity g of
         None \<Rightarrow> Inl AttributeError
       | Some e \<Rightarrow> if ab = e then Inr (Some b) else inverse_loop g a bs)"

definition inverse :: "'a group \<Rightarrow> 'a \<Rightarrow> error + 'a option" where
  "inverse g a = inverse_loop g a (elements g)"

fun cache_inverses_loop :: "'a group \<Rightarrow> 'a list \<Rightarrow> ('a \<rightharpoonup> 'a option) \<Rightarrow> error + ('a \<rightharpoonup> 'a option)" where
  "cache_inverses_loop g [] m = Inr m"
| "cache_inverses_loop g (x # xs) m =
     bindE (inverse g x) (\<lambda>v. cache_inverses_loop g xs (m(x \<mapsto> v)))"

definition cache_inverses :: "'a group \<Rightarrow> error + 'a group" where
  "cache_inverses g =
     bindE (cache_inverses_loop g (elements g) Map.empty) (\<lambda>m. Inr (g\<lparr>inverses := m\<rparr>))"

text \<open>The constructor: the object exists only if neither caching step raised.\<close>

definition Group :: "'a list \<Rightarrow> ('a \<Rightarrow> 'a \<Rightarrow> error + 'a) \<Rightarrow> error + 'a group" where
  "Group els f =
     bindE (cache_identity \<lparr>elements = els, fn = f, identity = None, inverses = Map.empty\<rparr>)
       cache_inverses"

text \<open>
  \<open>powerOf\<close>: \<open>b\<close> starts at \<open>a\<close> and the loop body runs \<open>abs(n)\<close> times; for negative
  \<open>n\<close> the inverse is searched again in every iteration.
\<close>

fun powerOf_loop :: "'a group \<Rightarrow> 'a \<Rightarrow> int \<Rightarrow> nat \<Rightarrow> 'a \<Rightarrow> error + 'a" where
  "powerOf_loop g a n 0 b = Inr b"
| "powerOf_loop g a n (Suc i) b =
     (if n > 0 then bindE (operation g b a) (powerOf_loop g a n i)
      else bindE (inverse g a) (\<lambda>c.
        case c of
          None \<Rightarrow> Inl OperandError
        | Some c' \<Rightarrow> bindE (operation g b c') (powerOf_loop g a n i)))"

definition powerOf :: "'a group \<Rightarrow> 'a \<Rightarrow> int \<Rightarrow> error + 'a" where
  "powerOf g a n =
     (if n = 0 then (case identity g of None \<Rightarrow> Inl AttributeError | Some e \<Rightarrow> Inr e)
      else powerOf_loop g a n (nat \<bar>n\<bar>) a)"

text \<open>
  \<open>left_coset\<close> and \<open>right_coset\<close>: the products are collected in a set, and the set is
  returned as a sorted tuple.
\<close>

definition left_coset :: "('a::linorder) group \<Rightarrow> 'a list \<Rightarrow> 'a \<Rightarrow> error + 'a list" where
  "left_coset g subgroup a =
     bindE (mapE (\<lambda>h. operation g a h) subgroup) (\<lambda>xs. Inr (sort (remdups xs)))"

definition right_coset :: "('a::linorder) group \<Rightarrow> 'a list \<Rightarrow> 'a \<Rightarrow> error + 'a list" where
  "right_coset g subgroup a =
     bindE (mapE (\<lambda>h. operation g h a) subgroup) (\<lambda>xs. Inr (sort (remdups xs)))"

text \<open>
  \<open>left_cosets\<close> and \<open>right_cosets\<close> return \<open>tuple(set([...]))\<close>; the order of that tuple
  is the iteration order of a hash set, so the result is modelled as the set itself.
\<close>

definition left_cosets :: "('a::linorder) group \<Rightarrow> 'a list \<Rightarrow> error + 'a list set" where
  "left_cosets g subgroup =
     bindE (mapE (left_coset g subgroup) (elements g)) (\<lambda>cs. Inr (set cs))"

definition right_cosets :: "('a::linorder) group \<Rightarrow> 'a list \<Rightarrow> error + 'a list set" where
  "right_cosets g subgroup =
     bindE (mapE (right_coset g subgroup) (elements g)) (\<lambda>cs. Inr (set cs))"

text \<open>
  \<open>is_subgroup\<close>: the pairs of \<open>product(H, repeat=2)\<close> in order; \<open>self.inverses[b]\<close>
  raises for a key that was never cached.
\<close>

fun is_subgroup_loop :: "'a group \<Rightarrow> 'a list \<Rightarrow> ('a \<times> 'a) list \<Rightarrow> error + bool" where
  "is_subgroup_loop g H [] = Inr True"
| "is_subgroup_loop g H ((a, b) # ps) =
     (case inverses g b of
        None \<Rightarrow> Inl KeyError
      | Some None \<Rightarrow> Inl OperandError
      | Some (Some b') \<Rightarrow>
          bindE (operation g a b') (\<lambda>c.
            if c \<notin> set H then Inr False else is_subgroup_loop g H ps))"

definition is_subgroup :: "'a group \<Rightarrow> 'a list \<Rightarrow> error + bool" where
  "is_subgroup g H =
     (case identity g of
        None \<Rightarrow> Inl AttributeError
      | Some e \<Rightarrow>
          if e \<notin> set H then Inr False else is_subgroup_loop g H (List.product H H))"

fun is_normal_divisor_inner :: "'a group \<Rightarrow> 'a list \<Rightarrow> 'a \<Rightarrow> 'a option \<Rightarrow> 'a list \<Rightarrow> error + bool" where
  "is_normal_divisor_inner g N x x' [] = Inr True"
| "is_normal_divisor_inner g N x x' (h # hs) =
     (case x' of
        None \<Rightarrow> Inl OperandError
      | Some xi \<Rightarrow>
          bindE (operation g h xi) (\<lambda>hx.
            bindE (operation g x hx) (\<lambda>n.
              if n \<notin> set N then Inr False else is_normal_divisor_inner g N x x' hs)))"

fun is_normal_divisor_loop :: "'a group \<Rightarrow> 'a list \<Rightarrow> 'a list \<Rightarrow> error + bool" where
  "is_normal_divisor_loop g N [] = Inr True"
| "is_normal_divisor_loop g N (x # xs) =
     (case inverses g x of
        None \<Rightarrow> Inl KeyError
      | Some x' \<Rightarrow>
          bindE (is_normal_divisor_inner g N x x' N) (\<lambda>r.
            if r then is_normal_divisor_loop g N xs else Inr False))"

definition is_normal_divisor :: "'a group \<Rightarrow> 'a list \<Rightarrow> error + bool" where
  "is_normal_divisor g N =
     bindE (is_subgroup g N) (\<lambda>r.
       if \<not> r then Inr False else is_normal_divisor_loop g N (elements g))"

definition subgroup :: "'a group \<Rightarrow> 'a list \<Rightarrow> error + 'a group" where
  "subgroup g H = Group H (fn g)"

text \<open>
  \<open>map(f, filter(p, xs))\<close> consumed to its end: the items yielded, and the exception
  that ended the iteration early, if one was raised.
\<close>

fun map_filter_iter :: "('b \<Rightarrow> error + 'c) \<Rightarrow> ('b \<Rightarrow> error + bool) \<Rightarrow> 'b list \<Rightarrow> 'c list \<times> error option" where
  "map_filter_iter f p [] = ([], None)"
| "map_filter_iter f p (x # xs) =
     (case p x of
        Inl e \<Rightarrow> ([], Some e)
      | Inr False \<Rightarrow> map_filter_iter f p xs
      | Inr True \<Rightarrow>
          (case f x of
             Inl e \<Rightarrow> ([], Some e)
           | Inr y \<Rightarrow> (case map_filter_iter f p xs of (ys, r) \<Rightarrow> (y # ys, r))))"

definition subgroups :: "'a group \<Rightarrow> 'a group list \<times> error option" where
  "subgroups g = map_filter_iter (subgroup g) (is_subgroup g) (powerset (elements g))"

definition normal_divisors :: "'a group \<Rightarrow> 'a group list \<times> error option" where
  "normal_divisors g = map_filter_iter (subgroup g) (is_normal_divisor g) (powerset (elements g))"

text \<open>
  \<open>order\<close>: a \<open>while\<close> loop with no bound; \<open>None\<close> is the run that never leaves it.
\<close>

partial_function (option) order_loop :: "'a group \<Rightarrow> 'a \<Rightarrow> 'a \<Rightarrow> nat \<Rightarrow> (error + nat) option" where
  "order_loop g a x n =
     (case identity g of
        None \<Rightarrow> Some (Inl AttributeError)
      | Some e \<Rightarrow>
          if x \<noteq> e then
            (case operation g x a of
               Inl err \<Rightarrow> Some (Inl err)
             | Inr x' \<Rightarrow> order_loop g a x' (n + 1))
          else Some (Inr n))"

declare order_loop.simps [code]

definition order :: "'a group \<Rightarrow> 'a \<Rightarrow> (error + nat) option" where
  "order g a = order_loop g a a 1"

text \<open>
  \<open>product\<close>: the element list is \<open>itertools.product(self.elements, repeat=2)\<close>; the
  operation applies \<open>self.fn\<close> to the first and \<open>H.fn\<close> to the second components.
\<close>

definition product_group :: "'a group \<Rightarrow> 'a group \<Rightarrow> error + ('a \<times> 'a) group" where
  "product_group g H =
     Group (List.product (elements g) (elements g))
       (\<lambda>a b. bindE (fn g (fst a) (fst b)) (\<lambda>x. bindE (fn H (snd a) (snd b)) (\<lambda>y. Inr (x, y))))"

text \<open>
  \<open>factorize\<close>: \<open>GN\<close> is a dictionary from cosets to elements, kept here as the list of
  its items in insertion order (the order of \<open>GN.values()\<close>).
\<close>

fun factorize_loop :: "('a::linorder) group \<Rightarrow> 'a list \<Rightarrow> 'a list \<Rightarrow> ('a list \<times> 'a) list \<Rightarrow> error + ('a list \<times> 'a) list" where
  "factorize_loop g N [] GN = Inr GN"
| "factorize_loop g N (x # xs) GN =
     bindE (left_coset g N x) (\<lambda>gn.
       factorize_loop g N xs (if map_of GN gn = None then GN @ [(gn, x)] else GN))"

definition factorize_fn :: "('a::linorder) group \<Rightarrow> 'a list \<Rightarrow> ('a list \<times> 'a) list \<Rightarrow> 'a \<Rightarrow> 'a \<Rightarrow> error + 'a" where
  "factorize_fn g N GN x y =
     bindE (fn g x y) (\<lambda>xy.
       bindE (left_coset g N xy) (\<lambda>c.
         case map_of GN c of None \<Rightarrow> Inl KeyError | Some r \<Rightarrow> Inr r))"

definition factorize :: "('a::linorder) group \<Rightarrow> 'a group \<Rightarrow> error + 'a group" where
  "factorize g N =
     bindE (factorize_loop g (elements N) (elements g) []) (\<lambda>GN.
       Group (sort (map snd GN)) (factorize_fn g (elements N) GN))"

section \<open>The GroupActor class (groups.py)\<close>

text \<open>
  The constructor assigns the attributes \<open>G\<close>, \<open>X\<close> and \<open>fn\<close>. \<open>is_valid\<close> iterates
  \<open>self.X\<close> in its first loop and \<open>self.x\<close>, which no code assigns, inside its second:
  the read of \<open>self.x\<close> raises for the first pair of \<open>product(G.elements, repeat=2)\<close>.
\<close>

record ('a, 'x) group_actor =
  actor_G :: "'a group"
  actor_X :: "'x list"
  actor_fn :: "'a \<Rightarrow> 'x \<Rightarrow> error + 'x"

definition action :: "('a, 'x) group_actor \<Rightarrow> 'a \<Rightarrow> 'x \<Rightarrow> error + 'x" where
  "action A x y = actor_fn A x y"

fun is_valid_identity_loop :: "('a, 'x) group_actor \<Rightarrow> 'x list \<Rightarrow> error + bool" where
  "is_valid_identity_loop A [] = Inr True"
| "is_valid_identity_loop A (x # xs) =
     (case identity (actor_G A) of
        None \<Rightarrow> Inl AttributeError
      | Some e \<Rightarrow>
          bindE (action A e x) (\<lambda>y.
            if y \<noteq> x then Inr False else is_valid_identity_loop A xs))"

fun is_valid_compat_loop :: "('a, 'x) group_actor \<Rightarrow> ('a \<times> 'a) list \<Rightarrow> error + bool" where
  "is_valid_compat_loop A [] = Inr True"
| "is_valid_compat_loop A ((x, h) # ps) = Inl AttributeError"

definition is_valid :: "('a, 'x) group_actor \<Rightarrow> error + bool" where
  "is_valid A =
     bindE (is_valid_identity_loop A (actor_X A)) (\<lambda>r.
       if \<not> r then Inr False
       else is_valid_compat_loop A
              (List.product (elements (actor_G A)) (elements (actor_G A))))"

section \<open>Notions the statements use\<close>

text \<open>
  \<open>repeated g a k\<close> is \<open>a\<close> after \<open>k\<close> further applications of the operation with \<open>a\<close>
  on the right, that is the product of \<open>k + 1\<close> copies of \<open>a\<close>.
\<close>

fun repeated :: "'a group \<Rightarrow> 'a \<Rightarrow> nat \<Rightarrow> error + 'a" where
  "repeated g a 0 = Inr a"
| "repeated g a (Suc k) = bindE (repeated g a k) (\<lambda>x. operation g x a)"

text \<open>
  The input the engine is specified for: a duplicate-free collection with an operation
  that is closed and associative on it and has a two-sided identity and an inverse for
  every element. A valid group is the object the constructor builds from such an input.
\<close>

definition is_group :: "'a list \<Rightarrow> ('a \<Rightarrow> 'a \<Rightarrow> error + 'a) \<Rightarrow> bool" where
  "is_group els f \<longleftrightarrow>
     distinct els \<and>
     (\<forall>a \<in> set els. \<forall>b \<in> set els. \<exists>c \<in> set els. f a b = Inr c) \<and>
     (\<forall>a \<in> set els. \<forall>b \<in> set els. \<forall>c \<in> set els.
        bindE (f a b) (\<lambda>ab. f ab c) = bindE (f b c) (\<lambda>bc. f a bc)) \<and>
     (\<exists>e \<in> set els.
        (\<forall>a \<in> set els. f e a = Inr a \<and> f a e = Inr a) \<and>
        (\<forall>a \<in> set els. \<exists>b \<in> set els. f a b = Inr e))"

definition valid_group :: "'a group \<Rightarrow> bool" where
  "valid_group g \<longleftrightarrow> is_group (elements g) (fn g) \<and> Group (elements g) (fn g) = Inr g"

text \<open>The product and the cached inverse as plain values, for elements where they exist.\<close>

definition mul :: "'a group \<Rightarrow> 'a \<Rightarrow> 'a \<Rightarrow> 'a" where
  "mul g a b = (case fn g a b of Inr c \<Rightarrow> c | Inl _ \<Rightarrow> a)"

definition inv_of :: "'a group \<Rightarrow> 'a \<Rightarrow> 'a" where
  "inv_of g a = (case inverses g a of Some (Some b) \<Rightarrow> b | _ \<Rightarrow> a)"

section \<open>Example groups\<close>

text \<open>Addition modulo \<open>n\<close>, and the objects the constructor builds for the cyclic groups of
  order 2, 3 and 4.\<close>

definition add_mod :: "nat \<Rightarrow> nat \<Rightarrow> nat \<Rightarrow> error + nat" where
  "add_mod n x y = Inr ((x + y) mod n)"

definition Z2 :: "nat group" where
  "Z2 = \<lparr>elements = [0, 1], fn = add_mod 2, identity = Some 0,
          inverses = [0 \<mapsto> Some 0, 1 \<mapsto> Some 1]\<rparr>"

definition Z3 :: "nat group" where
  "Z3 = \<lparr>elements = [0, 1, 2], fn = add_mod 3, identity = Some 0,
          inverses = [0 \<mapsto> Some 0, 1 \<mapsto> Some 2, 2 \<mapsto> Some 1]\<rparr>"

definition Z4 :: "nat group" where
  "Z4 = \<lparr>elements = [0, 1, 2, 3], fn = add_mod 4, identity = Some 0,
          inverses = [0 \<mapsto> Some 0, 1 \<mapsto> Some 3, 2 \<mapsto> Some 2, 3 \<mapsto> Some 1]\<rparr>"

text \<open>The subgroup object of the even residues modulo 4.\<close>

definition Z4_even :: "nat group" where
  "Z4_even = \<lparr>elements = [0, 2], fn = add_mod 4, identity = Some 0,
               inverses = [0 \<mapsto> Some 0, 2 \<mapsto> Some 2]\<rparr>"

section \<open>Basic facts\<close>

lemma bindE_eq_Inr: "bindE m k = Inr y \<longleftrightarrow> (\<exists>x. m = Inr x \<and> k x = Inr y)"
  by (cases m) simp_all

lemma bindE_eq_Inl: "bindE m k = Inl e \<longleftrightarrow> m = Inl e \<or> (\<exists>x. m = Inr x \<and> k x = Inl e)"
  by (cases m) simp_all

lemmas construct_defs =
  Group_def cache_identity_def cache_inverses_def is_identity_def inverse_def operation_def

lemma cache_identity_fields:
  assumes "cache_identity g = Inr g'"
  shows "elements g' = elements g \<and> fn g' = fn g \<and> inverses g' = inverses g"
proof -
  from assms obtain r where "g' = (case r of None \<Rightarrow> g | Some a \<Rightarrow> g\<lparr>identity := Some a\<rparr>)"
    unfolding cache_identity_def bindE_eq_Inr by auto
  then show ?thesis by (cases r) simp_all
qed

lemma cache_inverses_fields:
  assumes "cache_inverses g = Inr g'"
  shows "elements g' = elements g \<and> fn g' = fn g \<and> identity g' = identity g"
proof -
  from assms obtain m where "g' = g\<lparr>inverses := m\<rparr>"
    unfolding cache_inverses_def bindE_eq_Inr by auto
  then show ?thesis by simp
qed

lemma Group_elements:
  assumes "Group els f = Inr S"
  shows "elements S = els \<and> fn S = f"
proof -
  from assms obtain g1 where
    "cache_identity \<lparr>elements = els, fn = f, identity = None, inverses = Map.empty\<rparr> = Inr g1"
    and "cache_inverses g1 = Inr S"
    unfolding Group_def bindE_eq_Inr by auto
  then show ?thesis
    using cache_identity_fields [of _ g1] cache_inverses_fields [of g1 S] by simp
qed

lemma Group_Z2: "Group [0, 1] (add_mod 2) = Inr Z2"
  by (simp add: construct_defs add_mod_def Z2_def)

lemma Group_Z3: "Group [0, 1, 2] (add_mod 3) = Inr Z3"
  by (simp add: construct_defs add_mod_def Z3_def)

lemma Group_Z4: "Group [0, 1, 2, 3] (add_mod 4) = Inr Z4"
  by (simp add: construct_defs add_mod_def Z4_def)

section \<open>The subset enumerator\<close>

lemma combinations_too_long: "length xs < k \<Longrightarrow> combinations xs k = []"
  by (induction xs k rule: combinations.induct) simp_all

lemma combinations_full: "combinations xs (length xs) = [xs]"
  by (induction xs) (simp_all add: combinations_too_long)

lemma combinations_map: "combinations (map f xs) k = map (map f) (combinations xs k)"
  by (induction xs k rule: combinations.induct) simp_all

lemma combinations_by_position:
  "combinations A k = map (map ((!) A)) (combinations [0 ..< length A] k)"
proof -
  have "combinations A k = combinations (map ((!) A) [0 ..< length A]) k"
    by (simp add: map_nth)
  then show ?thesis by (simp only: combinations_map)
qed

lemma mset_combinations:
  "mset (combinations xs k) = mset (filter (\<lambda>ys. length ys = k) (subseqs xs))"
proof (induction xs k rule: combinations.induct)
  case (1 xs)
  have "filter (\<lambda>ys. length ys = 0) (subseqs xs) = [[]]"
    by (induction xs) (simp_all add: Let_def filter_map comp_def)
  then show ?case by simp
next
  case (2 k)
  then show ?case by simp
next
  case (3 x xs k)
  then show ?case by (simp add: Let_def filter_map comp_def)
qed

lemma mset_concat_by_length:
  "mset (concat (map (\<lambda>k. filter (\<lambda>ys. length ys = k) zs) [0 ..< m])) =
   mset (filter (\<lambda>ys. length ys < m) zs)"
proof (induction m)
  case 0
  then show ?case by simp
next
  case (Suc m)
  have "mset (filter (\<lambda>ys. length ys < Suc m) zs) =
        mset (filter (\<lambda>ys. length ys < m) zs) + mset (filter (\<lambda>ys. length ys = m) zs)"
    by (induction zs) auto
  with Suc show ?case by simp
qed

lemma mset_all_combinations:
  "mset (concat (map (combinations xs) [0 ..< Suc (length xs)])) = mset (subseqs xs)"
proof -
  have "mset (concat (map (combinations xs) [0 ..< Suc (length xs)])) =
        mset (concat (map (\<lambda>k. filter (\<lambda>ys. length ys = k) (subseqs xs)) [0 ..< Suc (length xs)]))"
    unfolding mset_concat map_map comp_def by (simp only: mset_combinations)
  also have "\<dots> = mset (filter (\<lambda>ys. length ys < Suc (length xs)) (subseqs xs))"
    by (rule mset_concat_by_length)
  also have "filter (\<lambda>ys. length ys < Suc (length xs)) (subseqs xs) = subseqs xs"
    by (rule filter_True) (auto simp: less_Suc_eq_le subseq_same_length list_emb_length)
  finally show ?thesis .
qed

lemma powerset_nonempty_eq:
  assumes "1 \<le> length A"
  shows "powerset A = concat (map (combinations A) [0 ..< Suc (length A)])"
proof -
  have "[0 ..< Suc (length A)] = 0 # [Suc 0 ..< Suc (length A)]"
    by (rule upt_conv_Cons) simp
  also from assms have "[Suc 0 ..< Suc (length A)] = [1 ..< length A] @ [length A]"
    by (simp only: One_nat_def upt_Suc_append)
  finally have "[0 ..< Suc (length A)] = 0 # [1 ..< length A] @ [length A]" .
  then show ?thesis by (simp add: powerset_def combinations_full)
qed

lemma mset_powerset: "1 \<le> length A \<Longrightarrow> mset (powerset A) = mset (subseqs A)"
  by (simp only: powerset_nonempty_eq mset_all_combinations)

lemma set_combinations: "set (combinations xs k) = {ys. subseq ys xs \<and> length ys = k}"
proof -
  have "set (combinations xs k) = set_mset (mset (combinations xs k))" by simp
  also have "\<dots> = {ys \<in> set (subseqs xs). length ys = k}"
    by (simp only: mset_combinations) auto
  finally show ?thesis by (auto simp: set_subseqs_eq)
qed

lemma subseq_set_subset: "subseq ys xs \<Longrightarrow> set ys \<subseteq> set xs"
  by (induction rule: list_emb.induct) auto

lemma combinations_lex_sorted:
  fixes xs :: "'a::order list"
  shows "sorted_wrt (<) xs \<Longrightarrow>
    sorted_wrt (\<lambda>ys zs. (ys, zs) \<in> lexord {(a, b). a < b}) (combinations xs k)"
proof (induction xs k rule: combinations.induct)
  case (1 xs)
  then show ?case by simp
next
  case (2 k)
  then show ?case by simp
next
  case (3 x xs k)
  have cross: "(x # ys, zs) \<in> lexord {(a, b). a < b}"
    if "zs \<in> set (combinations xs (Suc k))" for ys zs
  proof -
    from that have "subseq zs xs" and "length zs = Suc k" by (simp_all add: set_combinations)
    then obtain z zs' where zs: "zs = z # zs'" by (cases zs) auto
    with \<open>subseq zs xs\<close> have "z \<in> set xs"
      using subseq_set_subset [of zs xs] by auto
    with "3.prems" have "x < z" by simp
    with zs show ?thesis by simp
  qed
  from 3 have "sorted_wrt (\<lambda>ys zs. (ys, zs) \<in> lexord {(a, b). a < b}) (map ((#) x) (combinations xs k))"
    by (simp add: sorted_wrt_map)
  with 3 cross show ?case by (auto simp: sorted_wrt_append)
qed

text \<open>
  Claim C7. The enumerator yields the empty tuple, then for each size \<open>k\<close> from 1 to
  \<open>n - 1\<close> the tuples of \<open>A\<close> at the \<open>k\<close>-element increasing position lists, these in
  lexicographic order, then \<open>A\<close> itself. For \<open>n \<ge> 1\<close> the emissions are the
  subsequences of \<open>A\<close>, each position set once (\<open>2 ^ n\<close> of them); a 3-element
  collection gives the 8 tuples listed, and the empty collection gives the empty tuple
  twice.
\<close>

theorem powerset_enumeration:
  "powerset A =
     [] # concat (map (\<lambda>k. map (map ((!) A)) (combinations [0 ..< length A] k)) [1 ..< length A]) @ [A] \<and>
   (\<forall>k. set (combinations [0 ..< length A] k) = {ps. subseq ps [0 ..< length A] \<and> length ps = k} \<and>
        sorted_wrt (\<lambda>ps qs. (ps, qs) \<in> lexord {(i, j). i < j}) (combinations [0 ..< length A] k)) \<and>
   (1 \<le> length A \<longrightarrow>
      mset (powerset A) = mset (subseqs A) \<and> length (powerset A) = 2 ^ length A) \<and>
   powerset [a, b, c] = [[], [a], [b], [c], [a, b], [a, c], [b, c], [a, b, c]] \<and>
   powerset ([] :: 'a list) = [[], []]"
proof (intro conjI allI impI)
  have "map (combinations A) [1 ..< length A] =
        map (\<lambda>k. map (map ((!) A)) (combinations [0 ..< length A] k)) [1 ..< length A]"
    by (rule map_cong) (simp_all only: combinations_by_position [of A])
  then show "powerset A =
     [] # concat (map (\<lambda>k. map (map ((!) A)) (combinations [0 ..< length A] k)) [1 ..< length A]) @ [A]"
    by (simp only: powerset_def)
next
  fix k
  show "set (combinations [0 ..< length A] k) = {ps. subseq ps [0 ..< length A] \<and> length ps = k}"
    by (rule set_combinations)
  show "sorted_wrt (\<lambda>ps qs. (ps, qs) \<in> lexord {(i, j). i < j}) (combinations [0 ..< length A] k)"
    by (rule combinations_lex_sorted) (simp add: sorted_wrt_upt)
next
  assume n: "1 \<le> length A"
  then show m: "mset (powerset A) = mset (subseqs A)" by (rule mset_powerset)
  have "length (powerset A) = size (mset (powerset A))" by simp
  also have "\<dots> = length (subseqs A)" by (simp only: m size_mset)
  finally show "length (powerset A) = 2 ^ length A" by (simp add: length_subseqs)
next
  show "powerset [a, b, c] = [[], [a], [b], [c], [a, b], [a, c], [b, c], [a, b, c]]"
    by (simp add: powerset_def upt_conv_Cons numeral_2_eq_2)
  show "powerset ([] :: 'a list) = [[], []]"
    by (simp add: powerset_def)
qed

theorem powerset_enumeration_witness:
  "1 \<le> length [5::nat, 7] \<and> mset (powerset [5::nat, 7]) = mset (subseqs [5, 7]) \<and>
   powerset [5::nat, 7] = [[], [5], [7], [5, 7]]"
  using powerset_enumeration [of "[5::nat, 7]"]
  by (simp add: powerset_def)

section \<open>Powers\<close>

text \<open>
  Claim C1. In the cyclic group of order 3 built by the constructor, with \<open>a = 1\<close>:
  \<open>powerOf(a, 0)\<close> is the identity 0, but \<open>powerOf(a, 1)\<close> is \<open>a + a = 2\<close> and not
  \<open>a\<close>, and \<open>powerOf(a, -1)\<close> is \<open>a + inverse(a) = 0\<close> and not \<open>inverse(a) = 2\<close>: the
  loop runs \<open>abs(n)\<close> times on a value that already starts at \<open>a\<close>.
\<close>

theorem powerOf_Z3:
  "Group [0, 1, 2] (add_mod 3) = Inr Z3 \<and>
   powerOf Z3 1 0 = Inr 0 \<and>
   powerOf Z3 1 1 = Inr 2 \<and>
   powerOf Z3 1 (- 1) = Inr 0 \<and>
   inverse Z3 1 = Inr (Some 2)"
proof (intro conjI)
  show "Group [0, 1, 2] (add_mod 3) = Inr Z3" by (rule Group_Z3)
qed (simp_all add: Z3_def powerOf_def inverse_def operation_def add_mod_def)

section \<open>Direct products\<close>

text \<open>
  Claim C2. For the cyclic groups of order 2 and 4, \<open>product\<close> returns a group on the
  four pairs of elements of the first group, not on the eight pairs of the Cartesian
  product of the two element collections.
\<close>

theorem product_group_Z2_Z4:
  "Group [0, 1] (add_mod 2) = Inr Z2 \<and>
   Group [0, 1, 2, 3] (add_mod 4) = Inr Z4 \<and>
   bindE (product_group Z2 Z4) (\<lambda>P. Inr (elements P)) = Inr [(0, 0), (0, 1), (1, 0), (1, 1)] \<and>
   length (elements Z2) * length (elements Z4) = 8"
proof (intro conjI)
  show "Group [0, 1] (add_mod 2) = Inr Z2" by (rule Group_Z2)
  show "Group [0, 1, 2, 3] (add_mod 4) = Inr Z4" by (rule Group_Z4)
qed (simp_all add: Z2_def Z4_def product_group_def construct_defs add_mod_def)

section \<open>Construction without an identity\<close>

lemma cache_identity_loop_none:
  "\<forall>a \<in> set as. is_identity g a = Inr False \<Longrightarrow> cache_identity_loop g as = Inr None"
  by (induction as) simp_all

lemma inverse_loop_not_found:
  "identity g = Some e \<Longrightarrow> \<forall>b \<in> set bs. \<exists>c. fn g a b = Inr c \<and> c \<noteq> e \<Longrightarrow>
   inverse_loop g a bs = Inr None"
  by (induction bs) (auto simp: operation_def)

text \<open>
  Claim C8, as amended. When no element passes the identity test, the identity search
  leaves the identity unassigned without raising; construction then completes only for
  the empty collection (identity unassigned, no inverse cached), and for a non-empty one
  it raises the attribute error, in the first inverse search. With an assigned identity
  the inverse search returns the sentinel for an element that no element inverts. An
  object without an identity raises the attribute error in \<open>powerOf(a, 0)\<close> and in
  \<open>is_subgroup\<close>.
\<close>

theorem Group_without_identity:
  "((\<forall>a \<in> set els. is_identity \<lparr>elements = els, fn = f, identity = None, inverses = Map.empty\<rparr> a = Inr False) \<longrightarrow>
      cache_identity \<lparr>elements = els, fn = f, identity = None, inverses = Map.empty\<rparr>
        = Inr \<lparr>elements = els, fn = f, identity = None, inverses = Map.empty\<rparr> \<and>
      Group els f =
        (if els = [] then Inr \<lparr>elements = [], fn = f, identity = None, inverses = Map.empty\<rparr>
         else Inl AttributeError)) \<and>
   (identity g = Some e \<and> (\<forall>b \<in> set (elements g). \<exists>c. fn g a b = Inr c \<and> c \<noteq> e) \<longrightarrow>
      inverse g a = Inr None) \<and>
   (identity g = None \<longrightarrow> powerOf g a 0 = Inl AttributeError \<and> is_subgroup g H = Inl AttributeError)"
proof (intro conjI impI)
  let ?g = "\<lparr>elements = els, fn = f, identity = None, inverses = Map.empty\<rparr>"
  assume no_id: "\<forall>a \<in> set els. is_identity ?g a = Inr False"
  then have "cache_identity_loop ?g els = Inr None"
    by (rule cache_identity_loop_none)
  then show ci: "cache_identity ?g = Inr ?g" by (simp add: cache_identity_def)
  show "Group els f = (if els = [] then Inr \<lparr>elements = [], fn = f, identity = None, inverses = Map.empty\<rparr>
                       else Inl AttributeError)"
  proof (cases els)
    case Nil
    then show ?thesis using ci by (simp add: Group_def cache_inverses_def)
  next
    case (Cons x xs)
    with no_id have "is_identity ?g x = Inr False" by simp
    with Cons obtain c where "f x x = Inr c"
      by (cases "f x x") (simp_all add: is_identity_def)
    with Cons show ?thesis using ci
      by (simp add: Group_def cache_inverses_def inverse_def operation_def)
  qed
next
  assume "identity g = Some e \<and> (\<forall>b \<in> set (elements g). \<exists>c. fn g a b = Inr c \<and> c \<noteq> e)"
  then show "inverse g a = Inr None"
    unfolding inverse_def using inverse_loop_not_found [of g e "elements g" a] by blast
next
  assume "identity g = None"
  then show "powerOf g a 0 = Inl AttributeError" by (simp add: powerOf_def)
  from \<open>identity g = None\<close> show "is_subgroup g H = Inl AttributeError"
    by (simp add: is_subgroup_def)
qed

theorem Group_without_identity_witness:
  "is_identity \<lparr>elements = [0::nat, 1, 2], fn = (\<lambda>x y. Inr (Suc (max x y))), identity = None, inverses = Map.empty\<rparr> 0 = Inr False \<and>
   is_identity \<lparr>elements = [0::nat, 1, 2], fn = (\<lambda>x y. Inr (Suc (max x y))), identity = None, inverses = Map.empty\<rparr> 1 = Inr False \<and>
   is_identity \<lparr>elements = [0::nat, 1, 2], fn = (\<lambda>x y. Inr (Suc (max x y))), identity = None, inverses = Map.empty\<rparr> 2 = Inr False \<and>
   Group [0::nat, 1, 2] (\<lambda>x y. Inr (Suc (max x y))) = Inl AttributeError \<and>
   Group [] (add_mod 2) = Inr \<lparr>elements = [], fn = add_mod 2, identity = None, inverses = Map.empty\<rparr> \<and>
   identity \<lparr>elements = [0::nat, 1], fn = (\<lambda>x y. Inr (max x y)), identity = Some 0, inverses = Map.empty\<rparr> = Some 0 \<and>
   max (1::nat) 0 \<noteq> 0 \<and> max (1::nat) 1 \<noteq> 0 \<and>
   inverse \<lparr>elements = [0::nat, 1], fn = (\<lambda>x y. Inr (max x y)), identity = Some 0, inverses = Map.empty\<rparr> 1 = Inr None \<and>
   identity \<lparr>elements = [], fn = add_mod 2, identity = None, inverses = Map.empty\<rparr> = None \<and>
   powerOf \<lparr>elements = [], fn = add_mod 2, identity = None, inverses = Map.empty\<rparr> 1 0 = Inl AttributeError \<and>
   is_subgroup \<lparr>elements = [], fn = add_mod 2, identity = None, inverses = Map.empty\<rparr> [] = Inl AttributeError"
  using Group_without_identity [of "[0::nat, 1, 2]" "\<lambda>x y. Inr (Suc (max x y))"
      "\<lparr>elements = [0::nat, 1], fn = (\<lambda>x y. Inr (max x y)), identity = Some 0, inverses = Map.empty\<rparr>"
      0 1 "[]"]
    Group_without_identity [of "[]" "add_mod 2"
      "\<lparr>elements = [], fn = add_mod 2, identity = None, inverses = Map.empty\<rparr>" 0 1 "[]"]
  by (simp add: is_identity_def)

theorem Group_without_identity_counterexample:
  "is_identity \<lparr>elements = [0::nat, 1], fn = (\<lambda>x y. Inr 1), identity = None, inverses = Map.empty\<rparr> 0 = Inr False \<and>
   is_identity \<lparr>elements = [0::nat, 1], fn = (\<lambda>x y. Inr 1), identity = None, inverses = Map.empty\<rparr> 1 = Inr False \<and>
   Group [0::nat, 1] (\<lambda>x y. Inr 1) = Inl AttributeError"
  by (simp add: construct_defs)

section \<open>The action validator\<close>

lemma is_valid_identity_loop_True:
  "\<forall>x \<in> set xs. \<exists>e. identity (actor_G A) = Some e \<and> action A e x = Inr x \<Longrightarrow>
   is_valid_identity_loop A xs = Inr True"
  by (induction xs) auto

lemma is_valid_compat_loop_raises: "ps \<noteq> [] \<Longrightarrow> is_valid_compat_loop A ps = Inl AttributeError"
  by (cases ps) auto

text \<open>
  Claim C9. If the group of a GroupActor has at least one element, \<open>is_valid\<close> never
  returns true; and if moreover the identity axiom holds for every \<open>x\<close> of the acted-upon
  set, it raises the attribute error on entering the compatibility loop.
\<close>

theorem is_valid_never_true:
  assumes "elements (actor_G A) \<noteq> []"
  shows "is_valid A \<noteq> Inr True \<and>
         ((\<forall>x \<in> set (actor_X A). \<exists>e. identity (actor_G A) = Some e \<and> action A e x = Inr x)
            \<longrightarrow> is_valid A = Inl AttributeError)"
proof -
  from assms have ne: "List.product (elements (actor_G A)) (elements (actor_G A)) \<noteq> []"
    by (cases "elements (actor_G A)") simp_all
  have "is_valid A \<noteq> Inr True"
    using is_valid_compat_loop_raises [OF ne, of A]
    by (auto simp: is_valid_def bindE_eq_Inr split: if_splits)
  moreover have "is_valid A = Inl AttributeError"
    if "\<forall>x \<in> set (actor_X A). \<exists>e. identity (actor_G A) = Some e \<and> action A e x = Inr x"
    using is_valid_identity_loop_True [OF that] is_valid_compat_loop_raises [OF ne, of A]
    by (simp add: is_valid_def)
  ultimately show ?thesis by blast
qed

theorem is_valid_never_true_witness:
  "elements (actor_G \<lparr>actor_G = Z2, actor_X = [False, True], actor_fn = (\<lambda>x b. Inr (if x = 1 then \<not> b else b))\<rparr>) \<noteq> [] \<and>
   identity Z2 = Some 0 \<and>
   action \<lparr>actor_G = Z2, actor_X = [False, True], actor_fn = (\<lambda>x b. Inr (if x = 1 then \<not> b else b))\<rparr> 0 False = Inr False \<and>
   action \<lparr>actor_G = Z2, actor_X = [False, True], actor_fn = (\<lambda>x b. Inr (if x = 1 then \<not> b else b))\<rparr> 0 True = Inr True \<and>
   is_valid \<lparr>actor_G = Z2, actor_X = [False, True], actor_fn = (\<lambda>x b. Inr (if x = 1 then \<not> b else b))\<rparr> = Inl AttributeError"
  using is_valid_never_true [of "\<lparr>actor_G = Z2, actor_X = [False, True], actor_fn = (\<lambda>x b. Inr (if x = 1 then \<not> b else b))\<rparr>"]
  by (simp add: Z2_def action_def)

section \<open>Enumerated subgroups\<close>

lemma map_filter_iter_yield:
  "y \<in> set (fst (map_filter_iter f p xs)) \<Longrightarrow> \<exists>x \<in> set xs. p x = Inr True \<and> f x = Inr y"
  by (induction xs) (auto split: sum.splits bool.splits prod.splits if_splits)

lemma is_subgroup_True_identity:
  "is_subgroup g H = Inr True \<Longrightarrow> \<exists>e. identity g = Some e \<and> e \<in> set H"
  by (auto simp: is_subgroup_def split: option.splits if_splits)

lemma is_normal_divisor_True_subgroup:
  "is_normal_divisor g N = Inr True \<Longrightarrow> is_subgroup g N = Inr True"
  by (auto simp: is_normal_divisor_def bindE_eq_Inr split: if_splits)

lemma subgroups_Z4: "map elements (fst (subgroups Z4)) = [[0], [0, 2], [0, 1, 2, 3]]"
proof -
  have "powerset (elements Z4) =
    [[], [0], [1], [2], [3], [0, 1], [0, 2], [0, 3], [1, 2], [1, 3], [2, 3],
     [0, 1, 2], [0, 1, 3], [0, 2, 3], [1, 2, 3], [0, 1, 2, 3]]"
    by (simp add: Z4_def powerset_def upt_conv_Cons numeral_2_eq_2 numeral_3_eq_3)
  then show ?thesis
    by (simp add: subgroups_def)
       (simp add: Z4_def is_subgroup_def operation_def add_mod_def subgroup_def construct_defs)
qed

text \<open>
  Claim C10. The enumerator yields the empty subset first, and \<open>is_subgroup\<close> never
  accepts it: it returns false for a group with an identity. Every group
  yielded by \<open>subgroups\<close> or \<open>normal_divisors\<close> has a non-empty element collection that
  contains the identity of the parent group.
\<close>

theorem subgroups_contain_identity:
  "hd (powerset (elements g)) = [] \<and>
   is_subgroup g [] \<noteq> Inr True \<and>
   (identity g \<noteq> None \<longrightarrow> is_subgroup g [] = Inr False) \<and>
   (\<forall>S \<in> set (fst (subgroups g)) \<union> set (fst (normal_divisors g)).
      elements S \<noteq> [] \<and> (\<exists>e. identity g = Some e \<and> e \<in> set (elements S)))"
proof (intro conjI ballI)
  show "hd (powerset (elements g)) = []" by (simp add: powerset_def)
  show "is_subgroup g [] \<noteq> Inr True" by (simp add: is_subgroup_def split: option.splits)
  show "identity g \<noteq> None \<longrightarrow> is_subgroup g [] = Inr False"
    by (auto simp: is_subgroup_def)
next
  fix S assume "S \<in> set (fst (subgroups g)) \<union> set (fst (normal_divisors g))"
  then obtain H where H: "is_subgroup g H = Inr True" and S: "subgroup g H = Inr S"
    unfolding subgroups_def normal_divisors_def
    by (auto dest!: map_filter_iter_yield is_normal_divisor_True_subgroup)
  from S have "elements S = H" by (simp add: subgroup_def Group_elements)
  with is_subgroup_True_identity [OF H]
  show "elements S \<noteq> []" by auto
  show "\<exists>e. identity g = Some e \<and> e \<in> set (elements S)"
    using \<open>elements S = H\<close> is_subgroup_True_identity [OF H] by simp
qed

theorem subgroups_contain_identity_witness:
  "identity Z4 \<noteq> None \<and> is_subgroup Z4 [] = Inr False \<and>
   fst (subgroups Z4) ! 1 \<in> set (fst (subgroups Z4)) \<union> set (fst (normal_divisors Z4)) \<and>
   elements (fst (subgroups Z4) ! 1) = [0, 2] \<and>
   elements (fst (subgroups Z4) ! 1) \<noteq> [] \<and>
   identity Z4 = Some 0 \<and> 0 \<in> set (elements (fst (subgroups Z4) ! 1))"
proof -
  have id: "identity Z4 = Some 0" by (simp add: Z4_def)
  have len: "length (fst (subgroups Z4)) = 3"
    using arg_cong [OF subgroups_Z4, of length] by simp
  then have mem: "fst (subgroups Z4) ! 1 \<in> set (fst (subgroups Z4))" by simp
  have "map elements (fst (subgroups Z4)) ! 1 = [0, 2]" by (simp only: subgroups_Z4) simp
  with len have el: "elements (fst (subgroups Z4) ! 1) = [0, 2]" by simp
  from id mem el show ?thesis using subgroups_contain_identity [of Z4] by auto
qed

section \<open>What the constructor caches\<close>

lemma is_identity_loop_total:
  assumes "\<forall>b \<in> set bs. \<exists>c d. fn g a b = Inr c \<and> fn g b a = Inr d"
  shows "is_identity_loop g a bs = Inr (\<forall>b \<in> set bs. fn g a b = Inr b \<and> fn g b a = Inr b)"
  using assms by (induction bs) auto

lemma cache_identity_loop_finds:
  assumes "\<forall>a \<in> set as. \<exists>r. is_identity g a = Inr r"
    and "e \<in> set as" and "is_identity g e = Inr True"
  shows "\<exists>e' \<in> set as. cache_identity_loop g as = Inr (Some e') \<and> is_identity g e' = Inr True"
  using assms
proof (induction as)
  case Nil
  then show ?case by simp
next
  case (Cons a as)
  from Cons.prems(1) obtain r where r: "is_identity g a = Inr r" by auto
  show ?case
  proof (cases r)
    case True
    with r show ?thesis by simp
  next
    case False
    with r Cons.prems have "e \<in> set as" by auto
    with Cons.IH Cons.prems obtain e' where "e' \<in> set as"
      "cache_identity_loop g as = Inr (Some e')" "is_identity g e' = Inr True" by auto
    with r False show ?thesis by simp
  qed
qed

lemma inverse_loop_cong:
  "fn g' = fn g \<Longrightarrow> identity g' = identity g \<Longrightarrow> inverse_loop g' a bs = inverse_loop g a bs"
proof (induction bs)
  case Nil
  show ?case by simp
next
  case (Cons b bs)
  then show ?case
    by (cases "fn g a b"; cases "identity g") (simp_all add: operation_def)
qed

lemma cache_inverses_loop_map:
  "cache_inverses_loop g xs m = Inr m' \<Longrightarrow>
   (\<forall>x \<in> set xs. \<exists>v. m' x = Some v \<and> inverse g x = Inr v) \<and> (\<forall>x. x \<notin> set xs \<longrightarrow> m' x = m x)"
proof (induction xs arbitrary: m)
  case Nil
  then show ?case by simp
next
  case (Cons x xs)
  from Cons.prems obtain v where v: "inverse g x = Inr v"
    and rest: "cache_inverses_loop g xs (m(x \<mapsto> v)) = Inr m'"
    by (auto simp: bindE_eq_Inr)
  from Cons.IH [OF rest] v show ?case
    by (cases "x \<in> set xs") auto
qed

lemma Group_caches:
  assumes "Group els f = Inr g"
  shows "elements g = els" and "fn g = f"
    and "cache_identity_loop \<lparr>elements = els, fn = f, identity = None, inverses = Map.empty\<rparr> els = Inr (identity g)"
    and "\<forall>x \<in> set els. \<exists>v. inverses g x = Some v \<and> inverse g x = Inr v"
    and "\<forall>x. x \<notin> set els \<longrightarrow> inverses g x = None"
proof -
  let ?g0 = "\<lparr>elements = els, fn = f, identity = None, inverses = Map.empty\<rparr>"
  from assms obtain g1 where g1: "cache_identity ?g0 = Inr g1" and g: "cache_inverses g1 = Inr g"
    unfolding Group_def bindE_eq_Inr by auto
  from g1 obtain r where r: "cache_identity_loop ?g0 els = Inr r"
    and g1_eq: "g1 = (case r of None \<Rightarrow> ?g0 | Some a \<Rightarrow> ?g0\<lparr>identity := Some a\<rparr>)"
    unfolding cache_identity_def bindE_eq_Inr by auto
  from g1_eq have f1: "elements g1 = els" "fn g1 = f" "identity g1 = r" "inverses g1 = Map.empty"
    by (cases r; simp)+
  from g obtain m where m: "cache_inverses_loop g1 (elements g1) Map.empty = Inr m"
    and g_eq: "g = g1\<lparr>inverses := m\<rparr>"
    unfolding cache_inverses_def bindE_eq_Inr by auto
  from g_eq f1 show "elements g = els" "fn g = f" by simp_all
  from g_eq f1 r show "cache_identity_loop ?g0 els = Inr (identity g)" by simp
  have "elements g = elements g1" by (simp add: g_eq)
  moreover have "inverse_loop g x (elements g1) = inverse_loop g1 x (elements g1)" for x
    by (rule inverse_loop_cong) (simp_all add: g_eq)
  ultimately have inv_eq: "inverse g x = inverse g1 x" for x
    by (simp add: inverse_def)
  from cache_inverses_loop_map [OF m] f1 g_eq inv_eq
  show "\<forall>x \<in> set els. \<exists>v. inverses g x = Some v \<and> inverse g x = Inr v"
    and "\<forall>x. x \<notin> set els \<longrightarrow> inverses g x = None"
    by simp_all
qed

lemma inverse_loop_finds:
  assumes "identity g = Some e"
    and "\<forall>b \<in> set bs. \<exists>c. fn g a b = Inr c"
    and "\<exists>b \<in> set bs. fn g a b = Inr e"
  shows "\<exists>b \<in> set bs. inverse_loop g a bs = Inr (Some b) \<and> fn g a b = Inr e"
  using assms(2,3)
proof (induction bs)
  case Nil
  then show ?case by simp
next
  case (Cons b bs)
  from Cons.prems(1) obtain c where c: "fn g a b = Inr c" by auto
  show ?case
  proof (cases "c = e")
    case True
    with c assms(1) show ?thesis by (simp add: operation_def)
  next
    case False
    with c Cons.prems have "\<exists>b \<in> set bs. fn g a b = Inr e" by auto
    with Cons.IH Cons.prems(1) obtain b' where "b' \<in> set bs"
      "inverse_loop g a bs = Inr (Some b')" "fn g a b' = Inr e" by auto
    with c False assms(1) show ?thesis by (simp add: operation_def)
  qed
qed

lemma valid_group_facts:
  assumes "valid_group g"
  shows "\<exists>e. identity g = Some e \<and> e \<in> set (elements g) \<and> distinct (elements g) \<and>
    (\<forall>a \<in> set (elements g). \<forall>b \<in> set (elements g).
       fn g a b = Inr (mul g a b) \<and> mul g a b \<in> set (elements g)) \<and>
    (\<forall>a \<in> set (elements g). \<forall>b \<in> set (elements g). \<forall>c \<in> set (elements g).
       mul g (mul g a b) c = mul g a (mul g b c)) \<and>
    (\<forall>a \<in> set (elements g). mul g e a = a \<and> mul g a e = a) \<and>
    (\<forall>a \<in> set (elements g). inverses g a = Some (Some (inv_of g a)) \<and>
       inv_of g a \<in> set (elements g) \<and> mul g a (inv_of g a) = e \<and> mul g (inv_of g a) a = e) \<and>
    (\<forall>a. a \<notin> set (elements g) \<longrightarrow> inverses g a = None)"
proof -
  let ?G = "set (elements g)"
  let ?g0 = "\<lparr>elements = elements g, fn = fn g, identity = None, inverses = Map.empty\<rparr>"
  from assms have grp: "is_group (elements g) (fn g)" and con: "Group (elements g) (fn g) = Inr g"
    by (simp_all add: valid_group_def)
  from grp have dist: "distinct (elements g)"
    and closed: "\<forall>a \<in> ?G. \<forall>b \<in> ?G. \<exists>c \<in> ?G. fn g a b = Inr c"
    and assoc: "\<forall>a \<in> ?G. \<forall>b \<in> ?G. \<forall>c \<in> ?G.
        bindE (fn g a b) (\<lambda>ab. fn g ab c) = bindE (fn g b c) (\<lambda>bc. fn g a bc)"
    by (simp_all add: is_group_def)
  from grp obtain e where e: "e \<in> ?G"
    and e_id: "\<forall>a \<in> ?G. fn g e a = Inr a \<and> fn g a e = Inr a"
    and e_inv: "\<forall>a \<in> ?G. \<exists>b \<in> ?G. fn g a b = Inr e"
    unfolding is_group_def by blast
  have cl: "fn g a b = Inr (mul g a b) \<and> mul g a b \<in> ?G" if "a \<in> ?G" "b \<in> ?G" for a b
  proof -
    from closed that obtain c where "c \<in> ?G" "fn g a b = Inr c" by blast
    then show ?thesis by (simp add: mul_def)
  qed
  have as: "mul g (mul g a b) c = mul g a (mul g b c)" if "a \<in> ?G" "b \<in> ?G" "c \<in> ?G" for a b c
  proof -
    from assoc that have "bindE (fn g a b) (\<lambda>ab. fn g ab c) = bindE (fn g b c) (\<lambda>bc. fn g a bc)"
      by blast
    moreover have "bindE (fn g a b) (\<lambda>ab. fn g ab c) = Inr (mul g (mul g a b) c)"
      using cl [OF that(1,2)] cl [of "mul g a b" c] that(3) by simp
    moreover have "bindE (fn g b c) (\<lambda>bc. fn g a bc) = Inr (mul g a (mul g b c))"
      using cl [OF that(2,3)] cl [of a "mul g b c"] that(1) by simp
    ultimately show ?thesis by simp
  qed
  have idm: "mul g e a = a \<and> mul g a e = a" if "a \<in> ?G" for a
    using e_id that by (simp add: mul_def)
  \<comment> \<open>the identity search\<close>
  have is_id: "is_identity ?g0 a = Inr (\<forall>b \<in> ?G. fn g a b = Inr b \<and> fn g b a = Inr b)"
    if "a \<in> ?G" for a
  proof -
    have "\<forall>b \<in> ?G. \<exists>c d. fn ?g0 a b = Inr c \<and> fn ?g0 b a = Inr d"
      using cl that by auto
    from is_identity_loop_total [OF this] show ?thesis by (simp add: is_identity_def)
  qed
  have "\<exists>e' \<in> ?G. cache_identity_loop ?g0 (elements g) = Inr (Some e') \<and>
          is_identity ?g0 e' = Inr True"
  proof (rule cache_identity_loop_finds [of "elements g" ?g0 e])
    show "\<forall>a \<in> ?G. \<exists>r. is_identity ?g0 a = Inr r" using is_id by blast
    show "e \<in> ?G" by (rule e)
    show "is_identity ?g0 e = Inr True" using is_id [OF e] e_id by simp
  qed
  then obtain e' where e': "e' \<in> ?G" "cache_identity_loop ?g0 (elements g) = Inr (Some e')"
    "is_identity ?g0 e' = Inr True" by blast
  from e'(1,3) is_id have "fn g e' e = Inr e" using e by auto
  moreover from e_id e'(1) have "fn g e' e = Inr e'" by blast
  ultimately have "e' = e" by simp
  with e'(2) Group_caches(3) [OF con] have ident: "identity g = Some e" by simp
  \<comment> \<open>the inverse search\<close>
  have inv: "inverses g a = Some (Some (inv_of g a)) \<and> inv_of g a \<in> ?G \<and> mul g a (inv_of g a) = e"
    if "a \<in> ?G" for a
  proof -
    from Group_caches(4) [OF con] that obtain v where v: "inverses g a = Some v" "inverse g a = Inr v"
      by blast
    have "\<exists>b \<in> ?G. inverse_loop g a (elements g) = Inr (Some b) \<and> fn g a b = Inr e"
    proof (rule inverse_loop_finds [OF ident])
      show "\<forall>b \<in> ?G. \<exists>c. fn g a b = Inr c" using cl that by blast
      show "\<exists>b \<in> ?G. fn g a b = Inr e" using e_inv that by blast
    qed
    then obtain b where b: "b \<in> ?G" "inverse g a = Inr (Some b)" "fn g a b = Inr e"
      by (auto simp: inverse_def)
    with v have "inverses g a = Some (Some b)" by simp
    with b show ?thesis by (simp add: inv_of_def mul_def)
  qed
  have linv: "mul g (inv_of g a) a = e" if "a \<in> ?G" for a
  proof -
    let ?b = "inv_of g a"
    let ?c = "inv_of g ?b"
    from inv [OF that] have b: "?b \<in> ?G" "mul g a ?b = e" by simp_all
    from inv [OF b(1)] have c: "?c \<in> ?G" "mul g ?b ?c = e" by simp_all
    have ba: "mul g ?b a \<in> ?G" using cl b(1) that by blast
    have bc: "mul g ?b ?c \<in> ?G" using cl b(1) c(1) by blast
    have "mul g ?b a = mul g (mul g ?b a) e" using idm [OF ba] by simp
    also have "\<dots> = mul g (mul g ?b a) (mul g ?b ?c)" by (simp only: c(2))
    also have "\<dots> = mul g ?b (mul g a (mul g ?b ?c))"
      by (rule as [OF b(1) that bc])
    also have "\<dots> = mul g ?b (mul g (mul g a ?b) ?c)"
      by (simp only: as [OF that b(1) c(1)])
    also have "\<dots> = mul g ?b (mul g e ?c)" by (simp only: b(2))
    also have "\<dots> = mul g ?b ?c" using idm [OF c(1)] by simp
    also have "\<dots> = e" by (rule c(2))
    finally show ?thesis .
  qed
  have 1: "\<forall>a \<in> ?G. \<forall>b \<in> ?G. fn g a b = Inr (mul g a b) \<and> mul g a b \<in> ?G"
    using cl by blast
  have 2: "\<forall>a \<in> ?G. \<forall>b \<in> ?G. \<forall>c \<in> ?G. mul g (mul g a b) c = mul g a (mul g b c)"
    using as by blast
  have 3: "\<forall>a \<in> ?G. mul g e a = a \<and> mul g a e = a"
    using idm by blast
  have 4: "\<forall>a \<in> ?G. inverses g a = Some (Some (inv_of g a)) \<and>
       inv_of g a \<in> ?G \<and> mul g a (inv_of g a) = e \<and> mul g (inv_of g a) a = e"
    using inv linv by blast
  show ?thesis
    by (rule exI [of _ e]) (intro conjI ident e dist 1 2 3 4 Group_caches(5) [OF con])
qed

section \<open>Element order\<close>

lemma repeated_prefix: "repeated g a (j + m) = Inr z \<Longrightarrow> \<exists>y. repeated g a j = Inr y"
  by (induction m arbitrary: z) (auto simp: bindE_eq_Inr)

lemma order_loop_reaches:
  assumes id: "identity g = Some e"
  shows "repeated g a j = Inr x \<Longrightarrow> repeated g a (j + m) = Inr e \<Longrightarrow>
         \<forall>i < m. repeated g a (j + i) \<noteq> Inr e \<Longrightarrow>
         order_loop g a x n = Some (Inr (n + m))"
proof (induction m arbitrary: j x n)
  case 0
  then have "x = e" by simp
  with id show ?case by (subst order_loop.simps) simp
next
  case (Suc m)
  from Suc.prems(3) [rule_format, of 0] Suc.prems(1) have ne: "x \<noteq> e" by auto
  from Suc.prems(2) have "repeated g a (Suc j + m) = Inr e" by simp
  then obtain y where y: "repeated g a (Suc j) = Inr y"
    using repeated_prefix [of g a "Suc j" m e] by blast
  with Suc.prems(1) have op: "operation g x a = Inr y" by simp
  have "order_loop g a y (Suc n) = Some (Inr (Suc n + m))"
  proof (rule Suc.IH [OF y])
    from Suc.prems(2) show "repeated g a (Suc j + m) = Inr e" by simp
    show "\<forall>i<m. repeated g a (Suc j + i) \<noteq> Inr e"
    proof (intro allI impI)
      fix i assume "i < m"
      then have "repeated g a (j + Suc i) \<noteq> Inr e" using Suc.prems(3) by blast
      then show "repeated g a (Suc j + i) \<noteq> Inr e" by simp
    qed
  qed
  with id ne op show ?case by (subst order_loop.simps) simp
qed

lemma order_loop_induct:
  assumes ret: "order_loop g a x n = Some r"
    and step: "\<And>f g a x n r.
      (\<And>g a x n r. f g a x n = Some r \<Longrightarrow> P g a x n r) \<Longrightarrow>
      (case identity g of None \<Rightarrow> Some (Inl AttributeError)
       | Some e \<Rightarrow>
           if x \<noteq> e
           then case operation g x a of Inl err \<Rightarrow> Some (Inl err)
                | Inr x' \<Rightarrow> f g a x' (n + 1)
           else Some (Inr n)) = Some r \<Longrightarrow> P g a x n r"
  shows "P g a x n r"
  by (rule order_loop.raw_induct
      [where xa = "(((g, a), x), n)" and y = r and P = P, unfolded prod.case, OF step ret])

lemma order_loop_diverges:
  assumes id: "identity g = Some e"
    and never: "\<forall>k. \<exists>x. repeated g a k = Inr x \<and> x \<noteq> e"
    and x: "repeated g a j = Inr x"
  shows "order_loop g a x n = None"
proof (rule ccontr)
  assume "order_loop g a x n \<noteq> None"
  then obtain r where r: "order_loop g a x n = Some r" by auto
  have "g = g \<longrightarrow> a = a \<longrightarrow> (\<forall>j. repeated g a j \<noteq> Inr x)"
  proof (rule order_loop_induct
      [where P = "\<lambda>g' a' x' n' r'. g' = g \<longrightarrow> a' = a \<longrightarrow> (\<forall>j. repeated g a j \<noteq> Inr x')", OF r])
    fix f g' a' x' n' r'
    assume IH: "\<And>g' a' x' n' r'. f g' a' x' n' = Some r' \<Longrightarrow>
               g' = g \<longrightarrow> a' = a \<longrightarrow> (\<forall>j. repeated g a j \<noteq> Inr x')"
      and eq: "(case identity g' of None \<Rightarrow> Some (Inl AttributeError)
         | Some e \<Rightarrow>
             if x' \<noteq> e
             then case operation g' x' a' of Inl err \<Rightarrow> Some (Inl err)
                  | Inr x'' \<Rightarrow> f g' a' x'' (n' + 1)
             else Some (Inr n')) = Some r'"
    show "g' = g \<longrightarrow> a' = a \<longrightarrow> (\<forall>j. repeated g a j \<noteq> Inr x')"
    proof (intro allI impI notI)
      fix j assume g: "g' = g" and a: "a' = a" and j: "repeated g a j = Inr x'"
      from never obtain y where y: "repeated g a (Suc j) = Inr y" by blast
      from never j have "x' \<noteq> e" by (metis sum.inject(2))
      moreover from y j have "operation g x' a = Inr y" by simp
      ultimately have "f g a y (n' + 1) = Some r'" using eq id g a by simp
      from IH [OF this] y show False by blast
    qed
  qed
  with x show False by blast
qed

text \<open>
  What \<open>order\<close> computes. In a group with an identity: if the product of \<open>n\<close> copies
  of \<open>a\<close>, built by applying the operation with \<open>a\<close> on the right starting from \<open>a\<close>,
  is the identity for some \<open>n \<ge> 1\<close>, then \<open>order(a)\<close> returns, and returns the
  smallest such \<open>n\<close>; if these products all exist and none is the identity, \<open>order(a)\<close>
  does not return.
\<close>

lemma order_least:
  assumes "identity g = Some e"
  shows "((\<exists>k. repeated g a k = Inr e) \<longrightarrow>
            order g a = Some (Inr (Suc (LEAST k. repeated g a k = Inr e)))) \<and>
         ((\<forall>k. \<exists>x. repeated g a k = Inr x \<and> x \<noteq> e) \<longrightarrow> order g a = None)"
proof (intro conjI impI)
  assume "\<exists>k. repeated g a k = Inr e"
  then obtain k where k: "repeated g a k = Inr e" ..
  let ?m = "LEAST k. repeated g a k = Inr e"
  from k have m: "repeated g a ?m = Inr e" by (rule LeastI)
  have "\<forall>i < ?m. repeated g a i \<noteq> Inr e" using not_less_Least by blast
  with m have "order_loop g a a 1 = Some (Inr (1 + ?m))"
    using order_loop_reaches [OF assms, of a 0 a ?m 1] by simp
  then show "order g a = Some (Inr (Suc ?m))" by (simp add: order_def)
next
  assume "\<forall>k. \<exists>x. repeated g a k = Inr x \<and> x \<noteq> e"
  then show "order g a = None"
    unfolding order_def using order_loop_diverges [OF assms, of a 0 a 1] by simp
qed

lemma order_Z3: "order Z3 1 = Some (Inr 3)"
  apply (simp add: order_def)
  apply (subst order_loop.simps, simp add: Z3_def operation_def add_mod_def)
  apply (subst order_loop.simps, simp add: Z3_def operation_def add_mod_def)
  apply (subst order_loop.simps, simp add: Z3_def operation_def add_mod_def)
  done

lemma powerOf_loop_numeral:
  "powerOf_loop g a n (numeral k) b =
     (if n > 0 then bindE (operation g b a) (powerOf_loop g a n (pred_numeral k))
      else bindE (inverse g a) (\<lambda>c.
        case c of
          None \<Rightarrow> Inl OperandError
        | Some c' \<Rightarrow> bindE (operation g b c') (powerOf_loop g a n (pred_numeral k))))"
  by (simp add: numeral_eq_Suc)

lemma repeated_numeral:
  "repeated g a (numeral k) = bindE (repeated g a (pred_numeral k)) (\<lambda>x. operation g x a)"
  by (simp add: numeral_eq_Suc)

lemma repeated_max_const: "repeated \<lparr>elements = [0::nat, 1], fn = (\<lambda>x y. Inr (max x y)), identity = Some 0, inverses = Map.empty\<rparr> 1 k = Inr 1"
  by (induction k) (simp_all add: operation_def)

lemma order_least_example:
  "identity Z3 = Some 0 \<and> repeated Z3 1 2 = Inr 0 \<and>
   order Z3 1 = Some (Inr (Suc (LEAST k. repeated Z3 1 k = Inr 0))) \<and>
   order Z3 1 = Some (Inr 3) \<and>
   order \<lparr>elements = [0::nat, 1], fn = (\<lambda>x y. Inr (max x y)), identity = Some 0, inverses = Map.empty\<rparr> 1 = None"
proof (intro conjI)
  show id: "identity Z3 = Some 0" by (simp add: Z3_def)
  show r: "repeated Z3 1 2 = Inr 0" by (simp add: repeated_numeral Z3_def operation_def add_mod_def)
  from r have "\<exists>k. repeated Z3 1 k = Inr 0" ..
  with order_least [OF id, of 1]
  show "order Z3 1 = Some (Inr (Suc (LEAST k. repeated Z3 1 k = Inr 0)))" by blast
  show "order Z3 1 = Some (Inr 3)" by (rule order_Z3)
  from order_least [of "\<lparr>elements = [0::nat, 1], fn = (\<lambda>x y. Inr (max x y)), identity = Some 0, inverses = Map.empty\<rparr>" 0 1]
  show "order \<lparr>elements = [0::nat, 1], fn = (\<lambda>x y. Inr (max x y)), identity = Some 0, inverses = Map.empty\<rparr> 1 = None"
    using repeated_max_const by auto
qed

text \<open>
  \<open>powerOf\<close> with a positive exponent \<open>n\<close> is the product of \<open>n + 1\<close> copies of
  \<open>a\<close>: one application more than the \<open>n\<close>-th power that \<open>order\<close> counts.
\<close>

lemma bindE_Inr_right: "bindE m Inr = m"
  by (cases m) simp_all

lemma bindE_assoc: "bindE (bindE m k) h = bindE m (\<lambda>x. bindE (k x) h)"
  by (cases m) simp_all

lemma powerOf_loop_repeated:
  "0 < m \<Longrightarrow> bindE (repeated g a j) (powerOf_loop g a m k) = repeated g a (j + k)"
proof (induction k arbitrary: j)
  case 0
  show ?case by (simp add: bindE_Inr_right)
next
  case (Suc k)
  have "bindE (repeated g a j) (powerOf_loop g a m (Suc k)) =
        bindE (repeated g a j) (\<lambda>b. bindE (operation g b a) (powerOf_loop g a m k))"
    using Suc.prems by (cases "repeated g a j") simp_all
  also have "\<dots> = bindE (repeated g a (Suc j)) (powerOf_loop g a m k)"
    by (simp add: bindE_assoc)
  also have "\<dots> = repeated g a (Suc j + k)" by (rule Suc.IH [OF Suc.prems])
  finally show ?case by (simp only: add_Suc add_Suc_right)
qed

lemma powerOf_repeated: "0 < n \<Longrightarrow> powerOf g a (int n) = repeated g a n"
  using powerOf_loop_repeated [of "int n" g a 0 n] by (simp add: powerOf_def)

text \<open>
  Claim C3. In the cyclic group of order 3 built by the constructor, with \<open>a = 1\<close>:
  \<open>powerOf(a, 1) = 2\<close> is not the identity 0 and \<open>powerOf(a, 2) = 0\<close> is, so the
  smallest \<open>n \<ge> 1\<close> with \<open>powerOf(a, n) = identity\<close> is 2; \<open>order(a)\<close> returns 3,
  and \<open>powerOf(a, 3) = 1\<close> is not the identity.
\<close>

theorem order_powerOf_Z3:
  "Group [0, 1, 2] (add_mod 3) = Inr Z3 \<and>
   identity Z3 = Some 0 \<and> powerOf Z3 1 1 = Inr 2 \<and> powerOf Z3 1 2 = Inr 0 \<and>
   order Z3 1 = Some (Inr 3) \<and> powerOf Z3 1 3 = Inr 1"
proof (intro conjI)
  show "Group [0, 1, 2] (add_mod 3) = Inr Z3" by (rule Group_Z3)
  show "order Z3 1 = Some (Inr 3)" by (rule order_Z3)
qed (simp_all add: Z3_def operation_def add_mod_def powerOf_def powerOf_loop_numeral)

section \<open>The subgroup test\<close>

lemma is_subgroup_loop_True_iff:
  "is_subgroup_loop g H ps = Inr True \<longleftrightarrow>
   (\<forall>(a, b) \<in> set ps. \<exists>b' c. inverses g b = Some (Some b') \<and> operation g a b' = Inr c \<and> c \<in> set H)"
proof (induction ps)
  case Nil
  show ?case by simp
next
  case (Cons p ps)
  obtain a b where p: "p = (a, b)" by (cases p)
  show ?case
  proof (cases "inverses g b")
    case None
    with p show ?thesis by simp
  next
    case (Some v)
    show ?thesis
    proof (cases v)
      case None
      with Some p show ?thesis by simp
    next
      case (Some b')
      with \<open>inverses g b = Some v\<close> p Cons.IH show ?thesis
        by (cases "operation g a b'") auto
    qed
  qed
qed

lemma is_subgroup_loop_returns:
  "\<forall>(a, b) \<in> set ps. \<exists>b' c. inverses g b = Some (Some b') \<and> operation g a b' = Inr c \<Longrightarrow>
   \<exists>r. is_subgroup_loop g H ps = Inr r"
  by (induction ps) auto

lemma valid_group_Z4: "valid_group Z4"
proof -
  have "is_group [0, 1, 2, 3] (add_mod 4)"
    by (simp add: is_group_def add_mod_def)
  with Group_Z4 show ?thesis by (simp add: valid_group_def Z4_def)
qed

lemma is_subgroup_valid:
  assumes "valid_group g" and "set H \<subseteq> set (elements g)" and "identity g = Some e"
  shows "is_subgroup g H =
           Inr (e \<in> set H \<and> (\<forall>a \<in> set H. \<forall>b \<in> set H. mul g a (inv_of g b) \<in> set H))"
proof (cases "e \<in> set H")
  case False
  with assms(3) show ?thesis by (simp add: is_subgroup_def)
next
  case True
  from valid_group_facts [OF assms(1)] assms(3) have
    cl: "\<forall>a \<in> set (elements g). \<forall>b \<in> set (elements g).
       fn g a b = Inr (mul g a b) \<and> mul g a b \<in> set (elements g)"
    and inv: "\<forall>a \<in> set (elements g). inverses g a = Some (Some (inv_of g a)) \<and>
       inv_of g a \<in> set (elements g) \<and> mul g a (inv_of g a) = e \<and> mul g (inv_of g a) a = e"
    by auto
  have pair: "inverses g b = Some (Some (inv_of g b)) \<and>
              operation g a (inv_of g b) = Inr (mul g a (inv_of g b))"
    if "a \<in> set H" "b \<in> set H" for a b
    using that assms(2) cl inv by (auto simp: operation_def)
  then have "\<exists>r. is_subgroup_loop g H (List.product H H) = Inr r"
    by (intro is_subgroup_loop_returns) auto
  then obtain r where r: "is_subgroup_loop g H (List.product H H) = Inr r" ..
  have "r \<longleftrightarrow> (\<forall>a \<in> set H. \<forall>b \<in> set H. mul g a (inv_of g b) \<in> set H)"
  proof
    assume r
    with r have "is_subgroup_loop g H (List.product H H) = Inr True" by simp
    then have *: "\<forall>(a, b) \<in> set (List.product H H). \<exists>b' c.
        inverses g b = Some (Some b') \<and> operation g a b' = Inr c \<and> c \<in> set H"
      by (simp only: is_subgroup_loop_True_iff)
    show "\<forall>a \<in> set H. \<forall>b \<in> set H. mul g a (inv_of g b) \<in> set H"
    proof (intro ballI)
      fix a b assume ab: "a \<in> set H" "b \<in> set H"
      with * obtain b' c where "inverses g b = Some (Some b')" "operation g a b' = Inr c" "c \<in> set H"
        by fastforce
      with pair [OF ab] show "mul g a (inv_of g b) \<in> set H" by simp
    qed
  next
    assume "\<forall>a \<in> set H. \<forall>b \<in> set H. mul g a (inv_of g b) \<in> set H"
    with pair have "\<forall>(a, b) \<in> set (List.product H H). \<exists>b' c.
        inverses g b = Some (Some b') \<and> operation g a b' = Inr c \<and> c \<in> set H"
      by auto
    then have "is_subgroup_loop g H (List.product H H) = Inr True"
      by (simp only: is_subgroup_loop_True_iff)
    with r show r by simp
  qed
  with r True assms(3) show ?thesis by (simp add: is_subgroup_def)
qed

text \<open>
  Claim C4. In a group with identity \<open>e\<close>, \<open>is_subgroup(H)\<close> returns false when \<open>e\<close>
  is not in \<open>H\<close>; when it is, \<open>is_subgroup(H)\<close> returns true exactly if for every
  ordered pair \<open>(a, b)\<close> of \<open>H\<close> the cached inverse of \<open>b\<close> exists and the operation
  applied to \<open>a\<close> and that inverse gives a member of \<open>H\<close>. For a valid group and a
  collection of its elements the test returns a truth value; it returns true for the
  collection that holds only the identity and for the whole element collection.
\<close>

theorem is_subgroup_spec:
  "(identity g = Some e \<and> e \<notin> set H \<longrightarrow> is_subgroup g H = Inr False) \<and>
   (identity g = Some e \<and> e \<in> set H \<longrightarrow>
      (is_subgroup g H = Inr True \<longleftrightarrow>
         (\<forall>a \<in> set H. \<forall>b \<in> set H. \<exists>b' c.
            inverses g b = Some (Some b') \<and> operation g a b' = Inr c \<and> c \<in> set H))) \<and>
   (valid_group g \<and> set H \<subseteq> set (elements g) \<longrightarrow> (\<exists>r. is_subgroup g H = Inr r)) \<and>
   (valid_group g \<and> identity g = Some e \<longrightarrow>
      is_subgroup g [e] = Inr True \<and> is_subgroup g (elements g) = Inr True)"
proof (intro conjI impI)
  assume "identity g = Some e \<and> e \<notin> set H"
  then show "is_subgroup g H = Inr False" by (simp add: is_subgroup_def)
next
  assume "identity g = Some e \<and> e \<in> set H"
  then have "is_subgroup g H = is_subgroup_loop g H (List.product H H)"
    by (simp add: is_subgroup_def)
  then show "is_subgroup g H = Inr True \<longleftrightarrow>
         (\<forall>a \<in> set H. \<forall>b \<in> set H. \<exists>b' c.
            inverses g b = Some (Some b') \<and> operation g a b' = Inr c \<and> c \<in> set H)"
    by (simp only: is_subgroup_loop_True_iff) auto
next
  assume a: "valid_group g \<and> set H \<subseteq> set (elements g)"
  with valid_group_facts [of g] obtain e' where "identity g = Some e'" by blast
  with a show "\<exists>r. is_subgroup g H = Inr r" by (simp add: is_subgroup_valid)
next
  assume a: "valid_group g \<and> identity g = Some e"
  from valid_group_facts [of g] a have
    e: "e \<in> set (elements g)"
    and cl: "\<forall>a \<in> set (elements g). \<forall>b \<in> set (elements g).
       fn g a b = Inr (mul g a b) \<and> mul g a b \<in> set (elements g)"
    and idm: "\<forall>a \<in> set (elements g). mul g e a = a \<and> mul g a e = a"
    and inv: "\<forall>a \<in> set (elements g). inverses g a = Some (Some (inv_of g a)) \<and>
       inv_of g a \<in> set (elements g) \<and> mul g a (inv_of g a) = e \<and> mul g (inv_of g a) a = e"
    by auto
  from inv e have "mul g e (inv_of g e) = e" "inv_of g e \<in> set (elements g)" by auto
  with idm have "inv_of g e = e" by auto
  with a e idm show "is_subgroup g [e] = Inr True"
    by (simp add: is_subgroup_valid)
  from a e cl inv show "is_subgroup g (elements g) = Inr True"
    by (simp add: is_subgroup_valid)
qed

theorem is_subgroup_spec_witness:
  "identity Z4 = Some 0 \<and> 0 \<notin> set [1::nat] \<and> is_subgroup Z4 [1] = Inr False \<and>
   0 \<in> set [0::nat, 2] \<and> is_subgroup Z4 [0, 2] = Inr True \<and>
   is_subgroup Z4 [0, 1] = Inr False \<and>
   valid_group Z4 \<and> set [0::nat, 1] \<subseteq> set (elements Z4) \<and>
   is_subgroup Z4 [0] = Inr True \<and> is_subgroup Z4 (elements Z4) = Inr True"
proof -
  have id: "identity Z4 = Some 0" by (simp add: Z4_def)
  have sub: "is_subgroup Z4 [0, 2] = Inr True" "is_subgroup Z4 [0, 1] = Inr False"
    "set [0::nat, 1] \<subseteq> set (elements Z4)"
    by (simp_all add: is_subgroup_def Z4_def operation_def add_mod_def)
  from is_subgroup_spec [of Z4 0 "[1]"] id
  have "is_subgroup Z4 [1] = Inr False" by simp
  moreover from is_subgroup_spec [of Z4 0 "[0, 2]"] id valid_group_Z4
  have "is_subgroup Z4 [0] = Inr True \<and> is_subgroup Z4 (elements Z4) = Inr True" by blast
  ultimately show ?thesis using id sub valid_group_Z4 by simp
qed

section \<open>Cancellation and subgroups\<close>

lemma mapE_total: "\<forall>x \<in> set xs. f x = Inr (h x) \<Longrightarrow> mapE f xs = Inr (map h xs)"
  by (induction xs) simp_all

lemma group_cancel:
  assumes "valid_group g"
    and "a \<in> set (elements g)" "x \<in> set (elements g)" "y \<in> set (elements g)"
  shows "mul g a x = mul g a y \<longleftrightarrow> x = y" and "mul g x a = mul g y a \<longleftrightarrow> x = y"
proof -
  let ?G = "set (elements g)"
  from valid_group_facts [OF assms(1)] obtain e where
    cl: "\<And>a b. a \<in> ?G \<Longrightarrow> b \<in> ?G \<Longrightarrow> mul g a b \<in> ?G"
    and as: "\<And>a b c. a \<in> ?G \<Longrightarrow> b \<in> ?G \<Longrightarrow> c \<in> ?G \<Longrightarrow> mul g (mul g a b) c = mul g a (mul g b c)"
    and idm: "\<And>a. a \<in> ?G \<Longrightarrow> mul g e a = a \<and> mul g a e = a"
    and inv: "\<And>a. a \<in> ?G \<Longrightarrow> inv_of g a \<in> ?G \<and> mul g a (inv_of g a) = e \<and> mul g (inv_of g a) a = e"
    by blast
  let ?i = "inv_of g a"
  from inv [OF assms(2)] have i: "?i \<in> ?G" "mul g a ?i = e" "mul g ?i a = e" by simp_all
  show "mul g a x = mul g a y \<longleftrightarrow> x = y"
  proof
    assume eq: "mul g a x = mul g a y"
    have "x = mul g (mul g ?i a) x" using i(3) idm [OF assms(3)] by simp
    also have "\<dots> = mul g ?i (mul g a x)" by (rule as [OF i(1) assms(2,3)])
    also have "\<dots> = mul g ?i (mul g a y)" by (simp only: eq)
    also have "\<dots> = mul g (mul g ?i a) y" by (rule as [OF i(1) assms(2,4), symmetric])
    also have "\<dots> = y" using i(3) idm [OF assms(4)] by simp
    finally show "x = y" .
  qed simp
  show "mul g x a = mul g y a \<longleftrightarrow> x = y"
  proof
    assume eq: "mul g x a = mul g y a"
    have "x = mul g x (mul g a ?i)" using i(2) idm [OF assms(3)] by simp
    also have "\<dots> = mul g (mul g x a) ?i" by (rule as [OF assms(3,2) i(1), symmetric])
    also have "\<dots> = mul g (mul g y a) ?i" by (simp only: eq)
    also have "\<dots> = mul g y (mul g a ?i)" by (rule as [OF assms(4,2) i(1)])
    also have "\<dots> = y" using i(2) idm [OF assms(4)] by simp
    finally show "x = y" .
  qed simp
qed

lemma inv_of_inv_of:
  assumes "valid_group g" and "a \<in> set (elements g)"
  shows "inv_of g (inv_of g a) = a"
proof -
  let ?G = "set (elements g)"
  from valid_group_facts [OF assms(1)] obtain e where
    inv: "\<And>a. a \<in> ?G \<Longrightarrow> inv_of g a \<in> ?G \<and> mul g a (inv_of g a) = e \<and> mul g (inv_of g a) a = e"
    by blast
  let ?i = "inv_of g a"
  from inv [OF assms(2)] have i: "?i \<in> ?G" "mul g ?i a = e" by simp_all
  from inv [OF i(1)] have j: "inv_of g ?i \<in> ?G" "mul g ?i (inv_of g ?i) = e" by simp_all
  with i(2) have "mul g ?i (inv_of g ?i) = mul g ?i a" by simp
  with group_cancel(1) [OF assms(1) i(1) j(1) assms(2)] show ?thesis by simp
qed

lemma is_subgroup_True_iff:
  assumes "identity g = Some e" and "e \<in> set H"
  shows "is_subgroup g H = Inr True \<longleftrightarrow>
         (\<forall>a \<in> set H. \<forall>b \<in> set H. \<exists>b' c.
            inverses g b = Some (Some b') \<and> operation g a b' = Inr c \<and> c \<in> set H)"
proof -
  from assms have "is_subgroup g H = is_subgroup_loop g H (List.product H H)"
    by (simp add: is_subgroup_def)
  then show ?thesis by (simp only: is_subgroup_loop_True_iff) auto
qed

lemma subgroup_closed:
  assumes "valid_group g" and "is_subgroup g H = Inr True"
  shows "set H \<subseteq> set (elements g)"
    and "\<exists>e. identity g = Some e \<and> e \<in> set H"
    and "\<forall>a \<in> set H. inv_of g a \<in> set H"
    and "\<forall>a \<in> set H. \<forall>b \<in> set H. mul g a b \<in> set H"
proof -
  let ?G = "set (elements g)"
  from valid_group_facts [OF assms(1)] obtain e where
    ident: "identity g = Some e"
    and idm: "\<And>a. a \<in> ?G \<Longrightarrow> mul g e a = a \<and> mul g a e = a"
    and inv: "\<And>a. a \<in> ?G \<Longrightarrow> inv_of g a \<in> ?G \<and> mul g a (inv_of g a) = e \<and> mul g (inv_of g a) a = e"
    and out: "\<And>a. a \<notin> ?G \<Longrightarrow> inverses g a = None"
    by blast
  from is_subgroup_True_identity [OF assms(2)] ident have eH: "e \<in> set H" by simp
  with ident show "\<exists>e. identity g = Some e \<and> e \<in> set H" by simp
  from assms(2) ident eH have loop: "\<forall>a \<in> set H. \<forall>b \<in> set H. \<exists>b' c.
      inverses g b = Some (Some b') \<and> operation g a b' = Inr c \<and> c \<in> set H"
    using is_subgroup_True_iff [of g e H] by blast
  show sub: "set H \<subseteq> ?G"
  proof
    fix b assume "b \<in> set H"
    with loop eH obtain b' where "inverses g b = Some (Some b')" by blast
    with out [of b] show "b \<in> ?G" by auto
  qed
  from assms ident sub have
    div: "\<forall>a \<in> set H. \<forall>b \<in> set H. mul g a (inv_of g b) \<in> set H"
    by (simp add: is_subgroup_valid)
  show invH: "\<forall>a \<in> set H. inv_of g a \<in> set H"
  proof
    fix a assume a: "a \<in> set H"
    with div eH have "mul g e (inv_of g a) \<in> set H" by blast
    moreover from a sub inv have "inv_of g a \<in> ?G" by blast
    ultimately show "inv_of g a \<in> set H" using idm by simp
  qed
  show "\<forall>a \<in> set H. \<forall>b \<in> set H. mul g a b \<in> set H"
  proof (intro ballI)
    fix a b assume a: "a \<in> set H" and b: "b \<in> set H"
    from b invH have "inv_of g b \<in> set H" by blast
    with a div have "mul g a (inv_of g (inv_of g b)) \<in> set H" by blast
    moreover from b sub have "inv_of g (inv_of g b) = b"
      by (intro inv_of_inv_of [OF assms(1)]) auto
    ultimately show "mul g a b \<in> set H" by simp
  qed
qed

lemma sort_remdups_set_eq: "set xs = set ys \<Longrightarrow> sort (remdups xs) = sort (remdups ys)"
  by (metis sorted_list_of_set_sort_remdups)

lemma length_sort_remdups: "length (sort (remdups xs)) = card (set xs)"
  by (simp add: length_remdups_card_conv)

lemma left_coset_valid:
  assumes "valid_group g" and "set H \<subseteq> set (elements g)" and "a \<in> set (elements g)"
  shows "left_coset g H a = Inr (sort (remdups (map (mul g a) H)))"
proof -
  from valid_group_facts [OF assms(1)] have
    "\<forall>a \<in> set (elements g). \<forall>b \<in> set (elements g). fn g a b = Inr (mul g a b)" by blast
  with assms(2,3) have "\<forall>h \<in> set H. operation g a h = Inr (mul g a h)"
    by (auto simp: operation_def)
  then have "mapE (\<lambda>h. operation g a h) H = Inr (map (mul g a) H)" by (rule mapE_total)
  then show ?thesis by (simp add: left_coset_def)
qed

lemma right_coset_valid:
  assumes "valid_group g" and "set H \<subseteq> set (elements g)" and "a \<in> set (elements g)"
  shows "right_coset g H a = Inr (sort (remdups (map (\<lambda>h. mul g h a) H)))"
proof -
  from valid_group_facts [OF assms(1)] have
    "\<forall>a \<in> set (elements g). \<forall>b \<in> set (elements g). fn g a b = Inr (mul g a b)" by blast
  with assms(2,3) have "\<forall>h \<in> set H. operation g h a = Inr (mul g h a)"
    by (auto simp: operation_def)
  then have "mapE (\<lambda>h. operation g h a) H = Inr (map (\<lambda>h. mul g h a) H)" by (rule mapE_total)
  then show ?thesis by (simp add: right_coset_def)
qed

text \<open>Two left cosets that share an element are the same set; likewise on the right.\<close>

lemma left_coset_subset:
  assumes v: "valid_group g" and s: "is_subgroup g H = Inr True"
    and a: "a \<in> set (elements g)" and b: "b \<in> set (elements g)"
    and h1: "h1 \<in> set H" and h2: "h2 \<in> set H" and eq: "mul g a h1 = mul g b h2"
  shows "mul g a ` set H \<subseteq> mul g b ` set H"
proof
  let ?G = "set (elements g)"
  from valid_group_facts [OF v] obtain e where
    cl: "\<And>a b. a \<in> ?G \<Longrightarrow> b \<in> ?G \<Longrightarrow> mul g a b \<in> ?G"
    and as: "\<And>a b c. a \<in> ?G \<Longrightarrow> b \<in> ?G \<Longrightarrow> c \<in> ?G \<Longrightarrow> mul g (mul g a b) c = mul g a (mul g b c)"
    and idm: "\<And>a. a \<in> ?G \<Longrightarrow> mul g e a = a \<and> mul g a e = a"
    and inv: "\<And>a. a \<in> ?G \<Longrightarrow> inv_of g a \<in> ?G \<and> mul g a (inv_of g a) = e \<and> mul g (inv_of g a) a = e"
    by blast
  note sub = subgroup_closed(1) [OF v s] and invH = subgroup_closed(3) [OF v s]
    and mulH = subgroup_closed(4) [OF v s]
  fix x assume "x \<in> mul g a ` set H"
  then obtain h where h: "h \<in> set H" and x: "x = mul g a h" by auto
  let ?i = "inv_of g h1"
  let ?k = "mul g h2 (mul g ?i h)"
  from h1 invH have iH: "?i \<in> set H" by blast
  with h mulH have ih: "mul g ?i h \<in> set H" by blast
  with h2 mulH have kH: "?k \<in> set H" by blast
  from h h1 h2 iH ih sub have G: "h \<in> ?G" "h1 \<in> ?G" "h2 \<in> ?G" "?i \<in> ?G" "mul g ?i h \<in> ?G"
    by auto
  have "mul g b ?k = mul g (mul g b h2) (mul g ?i h)"
    by (rule as [OF b G(3) G(5), symmetric])
  also have "\<dots> = mul g (mul g a h1) (mul g ?i h)" by (simp only: eq)
  also have "\<dots> = mul g a (mul g h1 (mul g ?i h))" by (rule as [OF a G(2) G(5)])
  also have "mul g h1 (mul g ?i h) = mul g (mul g h1 ?i) h" by (rule as [OF G(2) G(4) G(1), symmetric])
  also have "\<dots> = h" using inv [OF G(2)] idm [OF G(1)] by simp
  finally have "mul g b ?k = x" using x by simp
  with kH show "x \<in> mul g b ` set H" by blast
qed

lemma right_coset_subset:
  assumes v: "valid_group g" and s: "is_subgroup g H = Inr True"
    and a: "a \<in> set (elements g)" and b: "b \<in> set (elements g)"
    and h1: "h1 \<in> set H" and h2: "h2 \<in> set H" and eq: "mul g h1 a = mul g h2 b"
  shows "(\<lambda>h. mul g h a) ` set H \<subseteq> (\<lambda>h. mul g h b) ` set H"
proof
  let ?G = "set (elements g)"
  from valid_group_facts [OF v] obtain e where
    cl: "\<And>a b. a \<in> ?G \<Longrightarrow> b \<in> ?G \<Longrightarrow> mul g a b \<in> ?G"
    and as: "\<And>a b c. a \<in> ?G \<Longrightarrow> b \<in> ?G \<Longrightarrow> c \<in> ?G \<Longrightarrow> mul g (mul g a b) c = mul g a (mul g b c)"
    and idm: "\<And>a. a \<in> ?G \<Longrightarrow> mul g e a = a \<and> mul g a e = a"
    and inv: "\<And>a. a \<in> ?G \<Longrightarrow> inv_of g a \<in> ?G \<and> mul g a (inv_of g a) = e \<and> mul g (inv_of g a) a = e"
    by blast
  note sub = subgroup_closed(1) [OF v s] and invH = subgroup_closed(3) [OF v s]
    and mulH = subgroup_closed(4) [OF v s]
  fix x assume "x \<in> (\<lambda>h. mul g h a) ` set H"
  then obtain h where h: "h \<in> set H" and x: "x = mul g h a" by auto
  let ?i = "inv_of g h1"
  let ?k = "mul g (mul g h ?i) h2"
  from h1 invH have iH: "?i \<in> set H" by blast
  with h mulH have hi: "mul g h ?i \<in> set H" by blast
  with h2 mulH have kH: "?k \<in> set H" by blast
  from h h1 h2 iH hi sub have G: "h \<in> ?G" "h1 \<in> ?G" "h2 \<in> ?G" "?i \<in> ?G" "mul g h ?i \<in> ?G"
    by auto
  have "mul g ?k b = mul g (mul g h ?i) (mul g h2 b)"
    by (rule as [OF G(5) G(3) b])
  also have "\<dots> = mul g (mul g h ?i) (mul g h1 a)" by (simp only: eq)
  also have "\<dots> = mul g (mul g (mul g h ?i) h1) a" by (rule as [OF G(5) G(2) a, symmetric])
  also have "mul g (mul g h ?i) h1 = mul g h (mul g ?i h1)" by (rule as [OF G(1) G(4) G(2)])
  also have "\<dots> = h" using inv [OF G(2)] idm [OF G(1)] by simp
  finally have "mul g ?k b = x" using x by simp
  with kH show "x \<in> (\<lambda>h. mul g h b) ` set H" by blast
qed

section \<open>Cosets\<close>

lemma subgroup_Z4_even: "subgroup Z4 [0, 2] = Inr Z4_even"
  by (simp add: subgroup_def Z4_def Z4_even_def construct_defs add_mod_def)

lemma is_subgroup_Z4_even: "is_subgroup Z4 [0, 2] = Inr True"
  by (simp add: is_subgroup_def Z4_def operation_def add_mod_def)

lemma is_normal_divisor_Z4_even: "is_normal_divisor Z4 (elements Z4_even) = Inr True"
  by (simp add: is_normal_divisor_def is_subgroup_def Z4_def Z4_even_def operation_def add_mod_def)

lemmas coset_Z4_defs = left_coset_def right_coset_def Z4_def operation_def add_mod_def

lemma elements_Z4: "elements Z4 = [0, 1, 2, 3]"
  by (simp add: Z4_def)

lemma cosets_partition_generic:
  fixes t :: "'a::linorder \<Rightarrow> 'a \<Rightarrow> 'a"
  assumes into: "\<forall>a \<in> G. \<forall>h \<in> set H. t a h \<in> G"
    and self: "\<forall>a \<in> G. a \<in> t a ` set H"
    and inj: "\<forall>a \<in> G. inj_on (t a) (set H)"
    and overlap: "\<forall>a \<in> G. \<forall>b \<in> G. t a ` set H \<inter> t b ` set H \<noteq> {} \<longrightarrow> t a ` set H = t b ` set H"
  defines "L \<equiv> (\<lambda>a. sort (remdups (map (t a) H))) ` G"
  shows "(\<forall>C \<in> L. length C = card (set H)) \<and>
         (\<forall>C \<in> L. \<forall>D \<in> L. C \<noteq> D \<longrightarrow> set C \<inter> set D = {}) \<and>
         \<Union> (set ` L) = G"
proof (intro conjI ballI impI)
  fix C assume "C \<in> L"
  then obtain a where a: "a \<in> G" and C: "C = sort (remdups (map (t a) H))" by (auto simp: L_def)
  from C have "length C = card (t a ` set H)" by (simp only: length_sort_remdups set_map)
  also from inj a have "\<dots> = card (set H)" by (simp add: card_image)
  finally show "length C = card (set H)" .
next
  fix C D assume "C \<in> L" "D \<in> L" and ne: "C \<noteq> D"
  then obtain a b where a: "a \<in> G" and C: "C = sort (remdups (map (t a) H))"
    and b: "b \<in> G" and D: "D = sort (remdups (map (t b) H))" by (auto simp: L_def)
  show "set C \<inter> set D = {}"
  proof (rule ccontr)
    assume "set C \<inter> set D \<noteq> {}"
    with C D have "t a ` set H \<inter> t b ` set H \<noteq> {}" by simp
    with overlap a b have "t a ` set H = t b ` set H" by blast
    then have "set (map (t a) H) = set (map (t b) H)" by simp
    then have "C = D" unfolding C D by (rule sort_remdups_set_eq)
    with ne show False by contradiction
  qed
next
  show "\<Union> (set ` L) = G"
  proof
    show "\<Union> (set ` L) \<subseteq> G" using into by (auto simp: L_def)
    show "G \<subseteq> \<Union> (set ` L)"
    proof
      fix a assume a: "a \<in> G"
      with self have "a \<in> set (sort (remdups (map (t a) H)))" by simp
      with a show "a \<in> \<Union> (set ` L)" by (auto simp: L_def)
    qed
  qed
qed

lemma mapE_Inr_set:
  "mapE f xs = Inr ys \<Longrightarrow> set ys = {y. \<exists>x \<in> set xs. f x = Inr y}"
proof (induction xs arbitrary: ys)
  case Nil
  then show ?case by simp
next
  case (Cons x xs)
  from Cons.prems obtain y ys' where y: "f x = Inr y" and ys': "mapE f xs = Inr ys'"
    and ys: "ys = y # ys'" by (auto simp: bindE_eq_Inr)
  from Cons.IH [OF ys'] y ys show ?case by auto
qed

text \<open>
  Claim C6. For a valid group and a collection \<open>H\<close> that \<open>is_subgroup\<close> accepts,
  \<open>left_cosets\<close> and \<open>right_cosets\<close> return the set of the cosets of all elements of the
  group. Each of these cosets has as many elements as \<open>H\<close>, two different ones share no
  element, and together they cover the element collection of the group.
\<close>

theorem cosets_partition:
  assumes v: "valid_group g" and s: "is_subgroup g H = Inr True"
  shows "\<exists>L R. left_cosets g H = Inr L \<and> right_cosets g H = Inr R \<and>
     L = {C. \<exists>a \<in> set (elements g). left_coset g H a = Inr C} \<and>
     R = {C. \<exists>a \<in> set (elements g). right_coset g H a = Inr C} \<and>
     (\<forall>C \<in> L. length C = card (set H)) \<and>
     (\<forall>C \<in> L. \<forall>D \<in> L. C \<noteq> D \<longrightarrow> set C \<inter> set D = {}) \<and>
     \<Union> (set ` L) = set (elements g) \<and>
     (\<forall>C \<in> R. length C = card (set H)) \<and>
     (\<forall>C \<in> R. \<forall>D \<in> R. C \<noteq> D \<longrightarrow> set C \<inter> set D = {}) \<and>
     \<Union> (set ` R) = set (elements g)"
proof -
  let ?G = "set (elements g)"
  let ?lc = "\<lambda>a. sort (remdups (map (mul g a) H))"
  let ?rc = "\<lambda>a. sort (remdups (map (\<lambda>h. mul g h a) H))"
  from valid_group_facts [OF v] obtain e where
    ident: "identity g = Some e"
    and cl: "\<And>a b. a \<in> ?G \<Longrightarrow> b \<in> ?G \<Longrightarrow> mul g a b \<in> ?G"
    and idm: "\<And>a. a \<in> ?G \<Longrightarrow> mul g e a = a \<and> mul g a e = a"
    by blast
  note sub = subgroup_closed(1) [OF v s]
  from subgroup_closed(2) [OF v s] ident have eH: "e \<in> set H" by simp
  have lc: "left_coset g H a = Inr (?lc a)" if "a \<in> ?G" for a
    by (rule left_coset_valid [OF v sub that])
  have rc: "right_coset g H a = Inr (?rc a)" if "a \<in> ?G" for a
    by (rule right_coset_valid [OF v sub that])
  have L: "left_cosets g H = Inr (?lc ` ?G)"
    using mapE_total [of "elements g" "left_coset g H" ?lc] lc by (simp add: left_cosets_def)
  have R: "right_cosets g H = Inr (?rc ` ?G)"
    using mapE_total [of "elements g" "right_coset g H" ?rc] rc by (simp add: right_cosets_def)
  have Lset: "?lc ` ?G = {C. \<exists>a \<in> ?G. left_coset g H a = Inr C}" using lc by auto
  have Rset: "?rc ` ?G = {C. \<exists>a \<in> ?G. right_coset g H a = Inr C}" using rc by auto
  have left: "(\<forall>C \<in> ?lc ` ?G. length C = card (set H)) \<and>
         (\<forall>C \<in> ?lc ` ?G. \<forall>D \<in> ?lc ` ?G. C \<noteq> D \<longrightarrow> set C \<inter> set D = {}) \<and>
         \<Union> (set ` (?lc ` ?G)) = ?G"
  proof (rule cosets_partition_generic)
    show "\<forall>a \<in> ?G. \<forall>h \<in> set H. mul g a h \<in> ?G" using cl sub by blast
    show "\<forall>a \<in> ?G. a \<in> mul g a ` set H"
    proof
      fix a assume "a \<in> ?G"
      with idm have "mul g a e = a" by simp
      with eH show "a \<in> mul g a ` set H" by force
    qed
    show "\<forall>a \<in> ?G. inj_on (mul g a) (set H)"
    proof (intro ballI inj_onI)
      fix a x y assume "a \<in> ?G" "x \<in> set H" "y \<in> set H" "mul g a x = mul g a y"
      with group_cancel(1) [OF v, of a x y] sub show "x = y" by auto
    qed
    show "\<forall>a \<in> ?G. \<forall>b \<in> ?G. mul g a ` set H \<inter> mul g b ` set H \<noteq> {} \<longrightarrow>
            mul g a ` set H = mul g b ` set H"
    proof (intro ballI impI)
      fix a b assume a: "a \<in> ?G" and b: "b \<in> ?G"
        and "mul g a ` set H \<inter> mul g b ` set H \<noteq> {}"
      then obtain h1 h2 where h: "h1 \<in> set H" "h2 \<in> set H" "mul g a h1 = mul g b h2" by auto
      from left_coset_subset [OF v s a b h] left_coset_subset [OF v s b a h(2,1) h(3) [symmetric]]
      show "mul g a ` set H = mul g b ` set H" by blast
    qed
  qed
  have right: "(\<forall>C \<in> ?rc ` ?G. length C = card (set H)) \<and>
         (\<forall>C \<in> ?rc ` ?G. \<forall>D \<in> ?rc ` ?G. C \<noteq> D \<longrightarrow> set C \<inter> set D = {}) \<and>
         \<Union> (set ` (?rc ` ?G)) = ?G"
  proof (rule cosets_partition_generic [where t = "\<lambda>a h. mul g h a"])
    show "\<forall>a \<in> ?G. \<forall>h \<in> set H. mul g h a \<in> ?G" using cl sub by blast
    show "\<forall>a \<in> ?G. a \<in> (\<lambda>h. mul g h a) ` set H"
    proof
      fix a assume "a \<in> ?G"
      with idm have "mul g e a = a" by simp
      with eH show "a \<in> (\<lambda>h. mul g h a) ` set H" by force
    qed
    show "\<forall>a \<in> ?G. inj_on (\<lambda>h. mul g h a) (set H)"
    proof (intro ballI inj_onI)
      fix a x y assume "a \<in> ?G" "x \<in> set H" "y \<in> set H" "mul g x a = mul g y a"
      with group_cancel(2) [OF v, of a x y] sub show "x = y" by auto
    qed
    show "\<forall>a \<in> ?G. \<forall>b \<in> ?G. (\<lambda>h. mul g h a) ` set H \<inter> (\<lambda>h. mul g h b) ` set H \<noteq> {} \<longrightarrow>
            (\<lambda>h. mul g h a) ` set H = (\<lambda>h. mul g h b) ` set H"
    proof (intro ballI impI)
      fix a b assume a: "a \<in> ?G" and b: "b \<in> ?G"
        and "(\<lambda>h. mul g h a) ` set H \<inter> (\<lambda>h. mul g h b) ` set H \<noteq> {}"
      then obtain h1 h2 where h: "h1 \<in> set H" "h2 \<in> set H" "mul g h1 a = mul g h2 b" by auto
      from right_coset_subset [OF v s a b h] right_coset_subset [OF v s b a h(2,1) h(3) [symmetric]]
      show "(\<lambda>h. mul g h a) ` set H = (\<lambda>h. mul g h b) ` set H" by blast
    qed
  qed
  show ?thesis
  proof (intro exI conjI)
    show "left_cosets g H = Inr (?lc ` ?G)" by (rule L)
    show "right_cosets g H = Inr (?rc ` ?G)" by (rule R)
    show "?lc ` ?G = {C. \<exists>a \<in> ?G. left_coset g H a = Inr C}" by (rule Lset)
    show "?rc ` ?G = {C. \<exists>a \<in> ?G. right_coset g H a = Inr C}" by (rule Rset)
    from left show "\<forall>C \<in> ?lc ` ?G. length C = card (set H)" by (rule conjunct1)
    from left show "\<forall>C \<in> ?lc ` ?G. \<forall>D \<in> ?lc ` ?G. C \<noteq> D \<longrightarrow> set C \<inter> set D = {}"
      by (rule conjunct1 [OF conjunct2])
    from left show "\<Union> (set ` (?lc ` ?G)) = ?G" by (rule conjunct2 [OF conjunct2])
    from right show "\<forall>C \<in> ?rc ` ?G. length C = card (set H)" by (rule conjunct1)
    from right show "\<forall>C \<in> ?rc ` ?G. \<forall>D \<in> ?rc ` ?G. C \<noteq> D \<longrightarrow> set C \<inter> set D = {}"
      by (rule conjunct1 [OF conjunct2])
    from right show "\<Union> (set ` (?rc ` ?G)) = ?G" by (rule conjunct2 [OF conjunct2])
  qed
qed

theorem cosets_partition_witness:
  "valid_group Z4 \<and> is_subgroup Z4 [0, 2] = Inr True \<and>
   left_cosets Z4 [0, 2] = Inr {[0, 2], [1, 3]} \<and>
   right_cosets Z4 [0, 2] = Inr {[0, 2], [1, 3]} \<and>
   card (set [0::nat, 2]) = 2 \<and>
   \<Union> (set ` {[0::nat, 2], [1, 3]}) = set (elements Z4)"
proof -
  have L: "left_cosets Z4 [0, 2] = Inr {[0, 2], [1, 3]}"
    by (simp add: left_cosets_def coset_Z4_defs) (auto simp: numeral_2_eq_2)
  have R: "right_cosets Z4 [0, 2] = Inr {[0, 2], [1, 3]}"
    by (simp add: right_cosets_def coset_Z4_defs) (auto simp: numeral_2_eq_2)
  have "\<Union> (set ` L') = set (elements Z4)" if "left_cosets Z4 [0, 2] = Inr L'" for L'
    using cosets_partition [OF valid_group_Z4 is_subgroup_Z4_even] that
    by (elim exE conjE) (simp only: sum.inject)
  from this [OF L] have "\<Union> (set ` {[0::nat, 2], [1, 3]}) = set (elements Z4)" .
  with L R valid_group_Z4 is_subgroup_Z4_even show ?thesis by simp
qed

section \<open>Quotient groups\<close>

lemma inverse_loop_returns:
  assumes "identity g = Some e" and "\<forall>b \<in> set bs. \<exists>c. fn g a b = Inr c"
  shows "\<exists>v. inverse_loop g a bs = Inr v"
  using assms(2)
proof (induction bs)
  case Nil
  show ?case by simp
next
  case (Cons b bs)
  then obtain c where "fn g a b = Inr c" by auto
  with Cons assms(1) show ?case by (cases "c = e") (simp_all add: operation_def)
qed

lemma cache_inverses_loop_returns:
  "\<forall>x \<in> set xs. \<exists>v. inverse g x = Inr v \<Longrightarrow> \<exists>m'. cache_inverses_loop g xs m = Inr m'"
proof (induction xs arbitrary: m)
  case Nil
  show ?case by simp
next
  case (Cons x xs)
  then obtain v where "inverse g x = Inr v" by auto
  with Cons show ?case by simp
qed

lemma Group_returns:
  assumes total: "\<forall>a \<in> set els. \<forall>b \<in> set els. \<exists>c. f a b = Inr c"
    and e: "e \<in> set els" "\<forall>b \<in> set els. f e b = Inr b \<and> f b e = Inr b"
  shows "\<exists>g. Group els f = Inr g"
proof -
  let ?g0 = "\<lparr>elements = els, fn = f, identity = None, inverses = Map.empty\<rparr>"
  have is_id: "is_identity ?g0 a = Inr (\<forall>b \<in> set els. f a b = Inr b \<and> f b a = Inr b)"
    if "a \<in> set els" for a
  proof -
    have "\<forall>b \<in> set els. \<exists>c d. fn ?g0 a b = Inr c \<and> fn ?g0 b a = Inr d"
      using total that by auto
    from is_identity_loop_total [OF this] show ?thesis by (simp add: is_identity_def)
  qed
  have "\<exists>e' \<in> set els. cache_identity_loop ?g0 els = Inr (Some e') \<and>
          is_identity ?g0 e' = Inr True"
  proof (rule cache_identity_loop_finds [of els ?g0 e])
    show "\<forall>a \<in> set els. \<exists>r. is_identity ?g0 a = Inr r" using is_id by blast
    show "e \<in> set els" by (rule e)
    show "is_identity ?g0 e = Inr True" using is_id [OF e(1)] e(2) by simp
  qed
  then obtain e' where e': "cache_identity_loop ?g0 els = Inr (Some e')" by blast
  let ?g1 = "?g0\<lparr>identity := Some e'\<rparr>"
  from e' have g1: "cache_identity ?g0 = Inr ?g1" by (simp add: cache_identity_def)
  have "\<forall>x \<in> set els. \<exists>v. inverse ?g1 x = Inr v"
  proof
    fix x assume "x \<in> set els"
    with total have "\<forall>b \<in> set els. \<exists>c. fn ?g1 x b = Inr c" by simp
    with inverse_loop_returns [of ?g1 e' els x] show "\<exists>v. inverse ?g1 x = Inr v"
      by (simp add: inverse_def)
  qed
  from cache_inverses_loop_returns [OF this, of Map.empty]
  obtain m where "cache_inverses_loop ?g1 els Map.empty = Inr m" by blast
  then have "cache_inverses ?g1 = Inr (?g1\<lparr>inverses := m\<rparr>)" by (simp add: cache_inverses_def)
  with g1 show ?thesis by (simp add: Group_def)
qed

text \<open>The dictionary of \<open>factorize\<close>, for a function \<open>cos\<close> that gives the coset of an element.\<close>

lemma factorize_loop_pure:
  assumes "\<forall>x \<in> set xs. left_coset g N x = Inr (cos x)"
  shows "factorize_loop g N xs GN =
         Inr (foldl (\<lambda>GN x. if map_of GN (cos x) = None then GN @ [(cos x, x)] else GN) GN xs)"
  using assms by (induction xs arbitrary: GN) simp_all

lemma first_seen_map_of:
  "map_of (foldl (\<lambda>GN x. if map_of GN (cos x) = None then GN @ [(cos x, x)] else GN) GN xs) c =
   (case map_of GN c of Some r \<Rightarrow> Some r | None \<Rightarrow> List.find (\<lambda>a. cos a = c) xs)"
proof (induction xs arbitrary: GN)
  case Nil
  show ?case by (simp split: option.splits)
next
  case (Cons x xs)
  show ?case
    by (simp add: Cons.IH map_add_def split: option.splits)
qed

lemma first_seen_values:
  assumes "distinct xs"
  shows "map snd (foldl (\<lambda>GN x. if map_of GN (cos x) = None then GN @ [(cos x, x)] else GN) GN xs) =
   map snd GN @ filter (\<lambda>a. map_of GN (cos a) = None \<and> List.find (\<lambda>b. cos b = cos a) xs = Some a) xs"
  using assms
proof (induction xs arbitrary: GN)
  case Nil
  show ?case by simp
next
  case (Cons x xs)
  let ?GN' = "if map_of GN (cos x) = None then GN @ [(cos x, x)] else GN"
  from Cons.prems have d: "distinct xs" and nx: "x \<notin> set xs" by simp_all
  have *: "filter (\<lambda>a. map_of ?GN' (cos a) = None \<and> List.find (\<lambda>b. cos b = cos a) xs = Some a) xs =
        filter (\<lambda>a. map_of GN (cos a) = None \<and> List.find (\<lambda>b. cos b = cos a) (x # xs) = Some a) xs"
  proof (rule filter_cong [OF refl])
    fix a assume "a \<in> set xs"
    with nx have "a \<noteq> x" by auto
    then show "(map_of ?GN' (cos a) = None \<and> List.find (\<lambda>b. cos b = cos a) xs = Some a) =
          (map_of GN (cos a) = None \<and> List.find (\<lambda>b. cos b = cos a) (x # xs) = Some a)"
      by (auto simp: map_add_def split: option.splits)
  qed
  show ?case
    by (simp only: foldl_Cons Cons.IH [OF d] *) (simp split: option.splits)
qed

lemma is_normal_divisor_inner_True:
  "is_normal_divisor_inner g N x (Some xi) hs = Inr True \<Longrightarrow>
   \<forall>h \<in> set hs. \<exists>hx n. operation g h xi = Inr hx \<and> operation g x hx = Inr n \<and> n \<in> set N"
proof (induction hs)
  case Nil
  show ?case by simp
next
  case (Cons h hs)
  from Cons.prems obtain hx n where "operation g h xi = Inr hx" "operation g x hx = Inr n"
    "n \<in> set N" "is_normal_divisor_inner g N x (Some xi) hs = Inr True"
    by (auto simp: bindE_eq_Inr split: if_splits)
  with Cons.IH show ?case by auto
qed

lemma is_normal_divisor_loop_True:
  "is_normal_divisor_loop g N xs = Inr True \<Longrightarrow>
   \<forall>x \<in> set xs. \<exists>x'. inverses g x = Some x' \<and> is_normal_divisor_inner g N x x' N = Inr True"
proof (induction xs)
  case Nil
  show ?case by simp
next
  case (Cons x xs)
  from Cons.prems obtain x' where "inverses g x = Some x'"
    "is_normal_divisor_inner g N x x' N = Inr True" "is_normal_divisor_loop g N xs = Inr True"
    by (auto simp: bindE_eq_Inr split: option.splits if_splits)
  with Cons.IH show ?case by auto
qed

lemma normal_divisor_conjugates:
  assumes v: "valid_group g" and n: "is_normal_divisor g N = Inr True"
    and x: "x \<in> set (elements g)" and h: "h \<in> set N"
  shows "mul g x (mul g h (inv_of g x)) \<in> set N"
proof -
  let ?G = "set (elements g)"
  from valid_group_facts [OF v] have
    cl: "\<forall>a \<in> ?G. \<forall>b \<in> ?G. fn g a b = Inr (mul g a b) \<and> mul g a b \<in> ?G"
    and inv: "\<forall>a \<in> ?G. inverses g a = Some (Some (inv_of g a)) \<and> inv_of g a \<in> ?G"
    by blast+
  from n have s: "is_subgroup g N = Inr True" by (rule is_normal_divisor_True_subgroup)
  note sub = subgroup_closed(1) [OF v s]
  from n s have "is_normal_divisor_loop g N (elements g) = Inr True"
    by (simp add: is_normal_divisor_def)
  from is_normal_divisor_loop_True [OF this] x inv
  have "is_normal_divisor_inner g N x (Some (inv_of g x)) N = Inr True" by auto
  from is_normal_divisor_inner_True [OF this] h obtain hx n where
    hx: "operation g h (inv_of g x) = Inr hx" "operation g x hx = Inr n" "n \<in> set N" by blast
  from h sub have hG: "h \<in> ?G" by auto
  from inv x have iG: "inv_of g x \<in> ?G" by blast
  from cl hG iG hx(1) have "hx = mul g h (inv_of g x)" "hx \<in> ?G" by (auto simp: operation_def)
  with cl x hx(2) have "n = mul g x (mul g h (inv_of g x))" by (auto simp: operation_def)
  with hx(3) show ?thesis by simp
qed

text \<open>The sorted coset of an element of the group, as a plain value.\<close>

lemma coset_absorb:
  assumes v: "valid_group g" and s: "is_subgroup g H = Inr True"
    and a: "a \<in> set (elements g)" and h: "h \<in> set H"
  shows "sort (remdups (map (mul g (mul g a h)) H)) = sort (remdups (map (mul g a) H))"
proof (rule sort_remdups_set_eq)
  let ?G = "set (elements g)"
  from valid_group_facts [OF v] obtain e where
    ident: "identity g = Some e"
    and cl: "\<And>a b. a \<in> ?G \<Longrightarrow> b \<in> ?G \<Longrightarrow> mul g a b \<in> ?G"
    and idm: "\<And>a. a \<in> ?G \<Longrightarrow> mul g e a = a \<and> mul g a e = a"
    by blast
  note sub = subgroup_closed(1) [OF v s]
  from subgroup_closed(2) [OF v s] ident have eH: "e \<in> set H" by simp
  from h sub have hG: "h \<in> ?G" by auto
  from cl [OF a hG] have ah: "mul g a h \<in> ?G" .
  from idm [OF ah] have eq: "mul g (mul g a h) e = mul g a h" by simp
  from left_coset_subset [OF v s ah a eH h eq] left_coset_subset [OF v s a ah h eH eq [symmetric]]
  show "set (map (mul g (mul g a h)) H) = set (map (mul g a) H)" by auto
qed

lemma normal_left_multiple:
  assumes v: "valid_group g" and n: "is_normal_divisor g N = Inr True"
    and y: "y \<in> set (elements g)" and r: "r \<in> set N"
  shows "\<exists>h \<in> set N. mul g r y = mul g y h"
proof -
  let ?G = "set (elements g)"
  from valid_group_facts [OF v] obtain e where
    cl: "\<And>a b. a \<in> ?G \<Longrightarrow> b \<in> ?G \<Longrightarrow> mul g a b \<in> ?G"
    and as: "\<And>a b c. a \<in> ?G \<Longrightarrow> b \<in> ?G \<Longrightarrow> c \<in> ?G \<Longrightarrow> mul g (mul g a b) c = mul g a (mul g b c)"
    and idm: "\<And>a. a \<in> ?G \<Longrightarrow> mul g e a = a \<and> mul g a e = a"
    and inv: "\<And>a. a \<in> ?G \<Longrightarrow> inv_of g a \<in> ?G \<and> mul g a (inv_of g a) = e \<and> mul g (inv_of g a) a = e"
    by blast
  from n have s: "is_subgroup g N = Inr True" by (rule is_normal_divisor_True_subgroup)
  note sub = subgroup_closed(1) [OF v s]
  let ?i = "inv_of g y"
  from inv [OF y] have i: "?i \<in> ?G" "mul g y ?i = e" by simp_all
  from r sub have rG: "r \<in> ?G" by auto
  have ii: "inv_of g ?i = y" by (rule inv_of_inv_of [OF v y])
  let ?h = "mul g ?i (mul g r y)"
  from normal_divisor_conjugates [OF v n i(1) r] ii have hN: "?h \<in> set N" by simp
  have ry: "mul g r y \<in> ?G" by (rule cl [OF rG y])
  have "mul g y ?h = mul g (mul g y ?i) (mul g r y)" by (rule as [OF y i(1) ry, symmetric])
  also have "\<dots> = mul g r y" using i(2) idm [OF ry] by simp
  finally have "mul g r y = mul g y ?h" by simp
  with hN show ?thesis by blast
qed

lemma find_Some_first: "List.find P xs = Some a \<Longrightarrow> a \<in> set xs \<and> P a"
  by (induction xs) (auto split: if_splits)

lemma find_exists: "a \<in> set xs \<Longrightarrow> P a \<Longrightarrow> \<exists>r. List.find P xs = Some r"
  by (induction xs) auto

text \<open>
  Claim C5. For a valid group and a group \<open>N\<close> whose elements \<open>is_normal_divisor\<close>
  accepts, \<open>factorize\<close> returns a group. Its dictionary maps the left coset of every
  element to the first element of the collection with that coset. The elements of the
  result are the sorted list of the elements that are the first with their coset, and its
  operation on two of them returns the first element whose coset is that of their product.
\<close>

theorem factorize_quotient:
  assumes v: "valid_group g" and n: "is_normal_divisor g (elements N) = Inr True"
  shows "\<exists>GN Q.
     factorize_loop g (elements N) (elements g) [] = Inr GN \<and>
     (\<forall>a \<in> set (elements g). \<exists>c. left_coset g (elements N) a = Inr c \<and>
        map_of GN c = List.find (\<lambda>b. left_coset g (elements N) b = Inr c) (elements g)) \<and>
     factorize g N = Inr Q \<and>
     elements Q = sort (filter (\<lambda>a. List.find (\<lambda>b. left_coset g (elements N) b =
                    left_coset g (elements N) a) (elements g) = Some a) (elements g)) \<and>
     (\<forall>x \<in> set (elements Q). \<forall>y \<in> set (elements Q). \<exists>xy r.
        operation g x y = Inr xy \<and>
        List.find (\<lambda>b. left_coset g (elements N) b = left_coset g (elements N) xy) (elements g) = Some r \<and>
        fn Q x y = Inr r \<and> r \<in> set (elements Q))"
proof -
  let ?G = "set (elements g)"
  let ?N = "elements N"
  let ?cos = "\<lambda>a. sort (remdups (map (mul g a) ?N))"
  let ?rep = "\<lambda>a. List.find (\<lambda>b. ?cos b = ?cos a) (elements g)"
  let ?GN = "foldl (\<lambda>GN x. if map_of GN (?cos x) = None then GN @ [(?cos x, x)] else GN) [] (elements g)"
  let ?reps = "filter (\<lambda>a. ?rep a = Some a) (elements g)"
  let ?qfn = "factorize_fn g ?N ?GN"
  from valid_group_facts [OF v] obtain e where
    ident: "identity g = Some e" and eG: "e \<in> ?G" and dist: "distinct (elements g)"
    and op: "\<And>a b. a \<in> ?G \<Longrightarrow> b \<in> ?G \<Longrightarrow> fn g a b = Inr (mul g a b)"
    and cl: "\<And>a b. a \<in> ?G \<Longrightarrow> b \<in> ?G \<Longrightarrow> mul g a b \<in> ?G"
    and idm: "\<And>a. a \<in> ?G \<Longrightarrow> mul g e a = a \<and> mul g a e = a"
    by blast
  from n have s: "is_subgroup g ?N = Inr True" by (rule is_normal_divisor_True_subgroup)
  note sub = subgroup_closed(1) [OF v s]
  from subgroup_closed(2) [OF v s] ident have eN: "e \<in> set ?N" by simp
  have lc: "left_coset g ?N a = Inr (?cos a)" if "a \<in> ?G" for a
    by (rule left_coset_valid [OF v sub that])
  \<comment> \<open>the dictionary\<close>
  have GN: "factorize_loop g ?N (elements g) [] = Inr ?GN"
    by (rule factorize_loop_pure) (simp add: lc)
  have look: "map_of ?GN c = List.find (\<lambda>a. ?cos a = c) (elements g)" for c
    by (simp add: first_seen_map_of)
  have find_lc: "List.find (\<lambda>b. left_coset g ?N b = Inr c) (elements g) =
                 List.find (\<lambda>b. ?cos b = c) (elements g)" for c
    by (rule find_cong [OF refl]) (simp add: lc)
  have find_lc': "List.find (\<lambda>b. left_coset g ?N b = left_coset g ?N a) (elements g) = ?rep a"
    if "a \<in> ?G" for a
    by (rule find_cong [OF refl]) (simp add: lc that)
  have vals: "map snd ?GN = ?reps"
    using first_seen_values [OF dist, of ?cos "[]"] by simp
  have reps_eq: "filter (\<lambda>a. List.find (\<lambda>b. left_coset g ?N b = left_coset g ?N a) (elements g) = Some a)
        (elements g) = ?reps"
    by (rule filter_cong [OF refl]) (simp add: find_lc')
  \<comment> \<open>the operation on representatives\<close>
  have rep_ex: "\<exists>r. ?rep a = Some r \<and> r \<in> set ?reps" if "a \<in> ?G" for a
  proof -
    from find_exists [of a "elements g" "\<lambda>b. ?cos b = ?cos a"] that
    obtain r where r: "?rep a = Some r" by auto
    from find_Some_first [OF r] have "r \<in> ?G" "?cos r = ?cos a" by simp_all
    with r show ?thesis by simp
  qed
  have qfn: "?qfn x y = Inr r" if "x \<in> ?G" "y \<in> ?G" "?rep (mul g x y) = Some r" for x y r
    using that op [OF that(1,2)] lc [OF cl [OF that(1,2)]]
    by (simp add: factorize_fn_def look)
  \<comment> \<open>the representative of the divisor is an identity of the quotient\<close>
  from rep_ex [OF eG] obtain r0 where r0: "?rep e = Some r0" "r0 \<in> set ?reps" by blast
  from find_Some_first [OF r0(1)] have r0G: "r0 \<in> ?G" and r0c: "?cos r0 = ?cos e" by simp_all
  have "r0 \<in> set (?cos r0)" using idm [OF r0G] eN by force
  with r0c have "r0 \<in> mul g e ` set ?N" by simp
  with idm sub have r0N: "r0 \<in> set ?N" by auto
  have id_left: "?qfn r0 y = Inr y" and id_right: "?qfn y r0 = Inr y" if "y \<in> set ?reps" for y
  proof -
    from that have yG: "y \<in> ?G" and y: "?rep y = Some y" by simp_all
    from normal_left_multiple [OF v n yG r0N] obtain h where h: "h \<in> set ?N" "mul g r0 y = mul g y h"
      by blast
    from coset_absorb [OF v s yG h(1)] h(2) have "?cos (mul g r0 y) = ?cos y" by simp
    with y have "?rep (mul g r0 y) = Some y" by simp
    then show "?qfn r0 y = Inr y" by (rule qfn [OF r0G yG])
    from coset_absorb [OF v s yG r0N] have "?cos (mul g y r0) = ?cos y" .
    with y have "?rep (mul g y r0) = Some y" by simp
    then show "?qfn y r0 = Inr y" by (rule qfn [OF yG r0G])
  qed
  have total: "\<exists>c. ?qfn x y = Inr c" if "x \<in> set ?reps" "y \<in> set ?reps" for x y
  proof -
    from that have xy: "x \<in> ?G" "y \<in> ?G" by simp_all
    from rep_ex [OF cl [OF xy]] obtain r where "?rep (mul g x y) = Some r" by blast
    from qfn [OF xy this] show ?thesis by blast
  qed
  have "\<exists>Q. Group (sort ?reps) ?qfn = Inr Q"
  proof (rule Group_returns [of _ _ r0])
    show "\<forall>a \<in> set (sort ?reps). \<forall>b \<in> set (sort ?reps). \<exists>c. ?qfn a b = Inr c"
      using total by simp
    show "r0 \<in> set (sort ?reps)" using r0(2) by simp
    show "\<forall>b \<in> set (sort ?reps). ?qfn r0 b = Inr b \<and> ?qfn b r0 = Inr b"
      using id_left id_right by simp
  qed
  then obtain Q where Q: "Group (sort ?reps) ?qfn = Inr Q" ..
  from Group_caches(1,2) [OF Q] have elQ: "elements Q = sort ?reps" and fnQ: "fn Q = ?qfn" .
  from GN Q vals have fact: "factorize g N = Inr Q" by (simp add: factorize_def)
  show ?thesis
  proof (rule exI [of _ ?GN], rule exI [of _ Q], intro conjI ballI)
    show "factorize_loop g ?N (elements g) [] = Inr ?GN" by (rule GN)
    show "factorize g N = Inr Q" by (rule fact)
    show "elements Q = sort (filter (\<lambda>a. List.find (\<lambda>b. left_coset g ?N b =
                    left_coset g ?N a) (elements g) = Some a) (elements g))"
      by (simp only: reps_eq elQ)
  next
    fix a assume "a \<in> ?G"
    then have "left_coset g ?N a = Inr (?cos a)" by (rule lc)
    moreover have "map_of ?GN (?cos a) =
        List.find (\<lambda>b. left_coset g ?N b = Inr (?cos a)) (elements g)"
      by (simp only: look find_lc)
    ultimately show "\<exists>c. left_coset g ?N a = Inr c \<and>
        map_of ?GN c = List.find (\<lambda>b. left_coset g ?N b = Inr c) (elements g)" by blast
  next
    fix x y assume "x \<in> set (elements Q)" "y \<in> set (elements Q)"
    with elQ have xy: "x \<in> ?G" "y \<in> ?G" by simp_all
    from rep_ex [OF cl [OF xy]] obtain r where r: "?rep (mul g x y) = Some r" "r \<in> set ?reps"
      by blast
    have "operation g x y = Inr (mul g x y)" using op [OF xy] by (simp add: operation_def)
    moreover have "List.find (\<lambda>b. left_coset g ?N b = left_coset g ?N (mul g x y)) (elements g) = Some r"
      using find_lc' [OF cl [OF xy]] r(1) by simp
    moreover have "fn Q x y = Inr r" using qfn [OF xy r(1)] fnQ by simp
    moreover have "r \<in> set (elements Q)" using r(2) elQ by simp
    ultimately show "\<exists>xy r. operation g x y = Inr xy \<and>
        List.find (\<lambda>b. left_coset g ?N b = left_coset g ?N xy) (elements g) = Some r \<and>
        fn Q x y = Inr r \<and> r \<in> set (elements Q)" by blast
  qed
qed

theorem factorize_quotient_witness:
  "valid_group Z4 \<and> is_normal_divisor Z4 (elements Z4_even) = Inr True \<and>
   (\<exists>Q. factorize Z4 Z4_even = Inr Q \<and> elements Q = [0, 1] \<and> fn Q 1 1 = Inr 0)"
proof -
  from factorize_quotient [OF valid_group_Z4 is_normal_divisor_Z4_even]
  obtain Q where Q: "factorize Z4 Z4_even = Inr Q"
    and el: "elements Q = sort (filter (\<lambda>a. List.find (\<lambda>b. left_coset Z4 (elements Z4_even) b =
                    left_coset Z4 (elements Z4_even) a) (elements Z4) = Some a) (elements Z4))"
    and op: "\<forall>x \<in> set (elements Q). \<forall>y \<in> set (elements Q). \<exists>xy r.
        operation Z4 x y = Inr xy \<and>
        List.find (\<lambda>b. left_coset Z4 (elements Z4_even) b = left_coset Z4 (elements Z4_even) xy) (elements Z4) = Some r \<and>
        fn Q x y = Inr r \<and> r \<in> set (elements Q)"
    by blast
  have N: "elements Z4_even = [0, 2]" by (simp add: Z4_even_def)
  from el have el': "elements Q = [0, 1]"
    by (simp add: N coset_Z4_defs)
  with op obtain xy r where "operation Z4 1 1 = Inr xy"
    and r: "List.find (\<lambda>b. left_coset Z4 (elements Z4_even) b = left_coset Z4 (elements Z4_even) xy) (elements Z4) = Some r"
    and f: "fn Q 1 1 = Inr r"
    by fastforce
  then have "xy = 2" by (simp add: operation_def Z4_def add_mod_def)
  with r have "r = 0" by (simp add: N coset_Z4_defs)
  with f el' Q valid_group_Z4 is_normal_divisor_Z4_even show ?thesis by simp
qed

end
